theory Spec2Isabelle
  imports Main "HOL-Library.AList"
begin

section \<open>Action groups\<close>

text \<open>
  The configuration of \<^verbatim>\<open>createDataFlowActions\<close> and the four action creators it
  returns. An action creator of the store library is known by its \<^verbatim>\<open>type\<close> string;
  the \<^verbatim>\<open>props\<close> argument of \<^verbatim>\<open>createAction\<close> only gives the payload its
  static type and is left out.
\<close>

record GroupedActionsConfig =
  source :: string
  action :: string

record ActionCreator =
  actionType :: string

definition createAction :: "string \<Rightarrow> ActionCreator" where
  "createAction t = \<lparr>actionType = t\<rparr>"

record ActionGroup =
  load :: ActionCreator
  loadSuccess :: ActionCreator
  loadFailure :: ActionCreator
  reset :: ActionCreator

text \<open>The template literals of the source, written as concatenations.\<close>

definition createDataFlowActions :: "GroupedActionsConfig \<Rightarrow> ActionGroup" where
  "createDataFlowActions config =
     \<lparr>load = createAction (''['' @ source config @ ''] '' @ action config),
      loadSuccess = createAction (''[API] '' @ action config @ '' Success''),
      loadFailure = createAction (''[API] '' @ action config @ '' Failure''),
      reset = createAction (''['' @ source config @ ''] '' @ action config @ '' Reset'')\<rparr>"

text \<open>The four identifiers of a group, in the order load, success, failure, reset.\<close>

definition identifiers :: "ActionGroup \<Rightarrow> string list" where
  "identifiers g =
     [actionType (load g), actionType (loadSuccess g),
      actionType (loadFailure g), actionType (reset g)]"

section \<open>State values\<close>

text \<open>
  The state handed to a reducer is plain data: \<^verbatim>\<open>undefined\<close>, \<^verbatim>\<open>null\<close>, booleans,
  numbers (integers here), strings, arrays and objects. An object is the list of its own
  properties in insertion order. Properties inherited from a prototype are not modelled.
  An exception is a value of type \<open>error\<close>; \<open>ImmerError\<close> is one thrown by the
  library immer, from which the source imports \<^verbatim>\<open>produce\<close>. \<open>NotPlainData\<close> is
  not an exception: JavaScript lets an array that is not a draft take a named property,
  and the array is then no longer one of the values above; a run that does so ends
  with \<open>NotPlainData\<close>.
\<close>

datatype jsval =
    JUndefined
  | JNull
  | JBool bool
  | JNum int
  | JStr string
  | JArr "jsval list"
  | JObj "(string \<times> jsval) list"

datatype error = TypeError | RangeError | ImmerError | NotPlainData

definition bindE :: "error + 'a \<Rightarrow> ('a \<Rightarrow> error + 'b) \<Rightarrow> error + 'b" where
  "bindE m f = (case m of Inl e \<Rightarrow> Inl e | Inr x \<Rightarrow> f x)"

subsection \<open>Strings and arrays of strings\<close>

text \<open>\<^verbatim>\<open>s.split(c)\<close>, \<^verbatim>\<open>xs.join(sep)\<close>, \<^verbatim>\<open>xs.pop()\<close> and the operator \<^verbatim>\<open>??\<close>.\<close>

fun js_split :: "char \<Rightarrow> string \<Rightarrow> string list" where
  "js_split c [] = [[]]"
| "js_split c (x # xs) =
     (if x = c then [] # js_split c xs
      else (x # hd (js_split c xs)) # tl (js_split c xs))"

fun js_join :: "string \<Rightarrow> string list \<Rightarrow> string" where
  "js_join sep [] = []"
| "js_join sep [s] = s"
| "js_join sep (s # t # ss) = s @ sep @ js_join sep (t # ss)"

definition js_pop :: "'a list \<Rightarrow> 'a option \<times> 'a list" where
  "js_pop xs = (if xs = [] then (None, []) else (Some (last xs), butlast xs))"

definition nullish :: "'a option \<Rightarrow> 'a \<Rightarrow> 'a" where
  "nullish x d = (case x of None \<Rightarrow> d | Some v \<Rightarrow> v)"

subsection \<open>Property access\<close>

text \<open>
  A property key is an array index when it is the canonical decimal numeral of a
  number below \<open>2\<^sup>3\<^sup>2 - 1\<close>: printing the number it reads as gives the key back.
\<close>

function decimal :: "int \<Rightarrow> string" where
  "decimal n =
     (if n < 10 then [''0123456789'' ! nat n]
      else decimal (n div 10) @ [''0123456789'' ! nat (n mod 10)])"
  by pat_completeness auto
termination
  by (relation "measure nat") auto

declare decimal.simps [simp del]

definition array_index :: "string \<Rightarrow> nat option" where
  "array_index k =
     (let n = foldl (\<lambda>n c. 10 * n + (of_char c - 48)) (0::int) k
      in if 0 \<le> n \<and> n < 4294967295 \<and> decimal n = k then Some (nat n) else None)"

text \<open>
  \<^verbatim>\<open>v[k]\<close>: reading a property of \<^verbatim>\<open>undefined\<close> or \<^verbatim>\<open>null\<close> throws a TypeError,
  a missing property reads as \<^verbatim>\<open>undefined\<close>.
\<close>

fun get_prop :: "jsval \<Rightarrow> string \<Rightarrow> error + jsval" where
  "get_prop JUndefined k = Inl TypeError"
| "get_prop JNull k = Inl TypeError"
| "get_prop (JObj kvs) k = Inr (case map_of kvs k of None \<Rightarrow> JUndefined | Some v \<Rightarrow> v)"
| "get_prop (JArr xs) k =
     Inr (if k = ''length'' then JNum (int (length xs))
          else case array_index k of
                 None \<Rightarrow> JUndefined
               | Some i \<Rightarrow> if i < length xs then xs ! i else JUndefined)"
| "get_prop (JStr s) k =
     Inr (if k = ''length'' then JNum (int (length s))
          else case array_index k of
                 None \<Rightarrow> JUndefined
               | Some i \<Rightarrow> if i < length s then JStr [s ! i] else JUndefined)"
| "get_prop (JBool b) k = Inr JUndefined"
| "get_prop (JNum n) k = Inr JUndefined"

text \<open>
  \<^verbatim>\<open>v[k] = x\<close> in strict mode, on a draft or on a plain value. An object takes the
  property (a new key goes last). An array takes an index or a numeric \<^verbatim>\<open>length\<close>;
  any other key on an array draft is refused by immer (in its development build).
  Assigning to a property of \<^verbatim>\<open>undefined\<close>, \<^verbatim>\<open>null\<close> or a primitive throws.
\<close>

fun set_prop :: "jsval \<Rightarrow> string \<Rightarrow> jsval \<Rightarrow> error + jsval" where
  "set_prop (JObj kvs) k x = Inr (JObj (AList.update k x kvs))"
| "set_prop (JArr xs) k x =
     (if k = ''length'' then
        (case x of
           JNum n \<Rightarrow>
             if 0 \<le> n \<and> n < 4294967296
             then Inr (JArr (take (nat n) xs @ replicate (nat n - length xs) JUndefined))
             else Inl RangeError
         | _ \<Rightarrow> Inl RangeError)
      else case array_index k of
             None \<Rightarrow> Inl ImmerError
           | Some i \<Rightarrow>
               Inr (JArr (if i < length xs then xs[i := x]
                          else xs @ replicate (i - length xs) JUndefined @ [x])))"
| "set_prop JUndefined k x = Inl TypeError"
| "set_prop JNull k x = Inl TypeError"
| "set_prop (JBool b) k x = Inl TypeError"
| "set_prop (JNum n) k x = Inl TypeError"
| "set_prop (JStr s) k x = Inl TypeError"

section \<open>Path resolver\<close>

text \<open>The loop \<^verbatim>\<open>for (let path of possibleNestedPath) nestedState = nestedState[path]\<close>.\<close>

fun walk :: "string list \<Rightarrow> jsval \<Rightarrow> error + jsval" where
  "walk [] nestedState = Inr nestedState"
| "walk (path # paths) nestedState =
     (case get_prop nestedState path of
        Inl e \<Rightarrow> Inl e
      | Inr v \<Rightarrow> walk paths v)"

definition getNestedState :: "string \<Rightarrow> jsval \<Rightarrow> error + jsval" where
  "getNestedState stateSelector nestedState =
     (let possibleNestedPath = js_split CHR ''.'' stateSelector;
          isNestedPath = length possibleNestedPath > 1
      in if \<not> isNestedPath then get_prop nestedState stateSelector
         else walk possibleNestedPath nestedState)"

text \<open>
  \<^verbatim>\<open>getNestedStatePathName\<close>. What \<^verbatim>\<open>console.error\<close> prints is returned as the
  first component. \<^verbatim>\<open>join\<close> always returns a string, so its result is never nullish.
\<close>

record PathName =
  propertyName :: string
  parentName :: string
  pathWithoutProperty :: string

definition diagnostic :: "string \<Rightarrow> string" where
  "diagnostic stateSelector =
     stateSelector @ '' is not a valid property path. Provide the name of the property that holds your data in state, not the name of the wrapper.''"

definition getNestedStatePathName :: "string \<Rightarrow> string list \<times> PathName" where
  "getNestedStatePathName stateSelector =
     (let possibleNestedPath = js_split CHR ''.'' stateSelector;
          isNestedPath = length possibleNestedPath > 1;
          console = (if \<not> isNestedPath then [diagnostic stateSelector] else []);
          (popped, possibleNestedPath) = js_pop possibleNestedPath;
          propertyName = nullish popped stateSelector;
          pathWithoutProperty = nullish (Some (js_join ''.'' possibleNestedPath)) stateSelector;
          (popped, possibleNestedPath) = js_pop possibleNestedPath;
          parentName = nullish popped stateSelector
      in (console,
          \<lparr>propertyName = propertyName, parentName = parentName,
           pathWithoutProperty = pathWithoutProperty\<rparr>))"

section \<open>Drafts\<close>

text \<open>
  \<^verbatim>\<open>produce\<close> is a function of immer, not of the repository. Inside \<^verbatim>\<open>produce\<close>
  the recipe works on a draft of the state. Reading a property of a draft gives the
  draft of the child, and an assignment through that child edits the copy that
  \<^verbatim>\<open>produce\<close> will return. A reference into the draft is the list of keys that
  leads to it from the root; \<open>getNestedState_draft\<close> is the traversal of
  \<open>getNestedState\<close> returning that reference, and \<open>assign\<close> is an assignment
  \<^verbatim>\<open>ref[k] = x\<close> through it, rebuilding the containers above the one assigned to.
  What the states are is told by this section; which objects they are made of is told
  by the store further down.
\<close>

type_synonym ref = "string list"

definition getNestedState_draft :: "string \<Rightarrow> jsval \<Rightarrow> error + ref" where
  "getNestedState_draft stateSelector draft =
     (let possibleNestedPath = js_split CHR ''.'' stateSelector;
          isNestedPath = length possibleNestedPath > 1
      in case getNestedState stateSelector draft of
           Inl e \<Rightarrow> Inl e
         | Inr _ \<Rightarrow> Inr (if \<not> isNestedPath then [stateSelector] else possibleNestedPath))"

fun replace_child :: "jsval \<Rightarrow> string \<Rightarrow> jsval \<Rightarrow> error + jsval" where
  "replace_child (JObj kvs) k child = Inr (JObj (AList.update k child kvs))"
| "replace_child (JArr xs) k child =
     (case array_index k of
        None \<Rightarrow> Inl TypeError
      | Some i \<Rightarrow> if i < length xs then Inr (JArr (xs[i := child])) else Inl TypeError)"
| "replace_child _ k child = Inl TypeError"

fun assign :: "ref \<Rightarrow> string \<Rightarrow> jsval \<Rightarrow> jsval \<Rightarrow> error + jsval" where
  "assign [] k x node = set_prop node k x"
| "assign (p # ps) k x node =
     (case get_prop node p of
        Inl e \<Rightarrow> Inl e
      | Inr child \<Rightarrow>
          (case assign ps k x child of
             Inl e \<Rightarrow> Inl e
           | Inr child' \<Rightarrow> replace_child node p child'))"

text \<open>A container is an object or an array.\<close>

fun is_container :: "jsval \<Rightarrow> bool" where
  "is_container (JObj kvs) = True"
| "is_container (JArr xs) = True"
| "is_container _ = False"

subsection \<open>Values held by a recipe\<close>

text \<open>
  A recipe can also build values of its own and return one of them as the next
  state; the custom \<^verbatim>\<open>reducerFunction\<close> of the source may do so. Such a value is new
  data that may hold drafts: \<open>DDraft r\<close> is the draft of the container found at the
  reference \<open>r\<close>, and \<open>DDraft []\<close> is the draft of the state itself. \<open>fresh v\<close> is
  the plain value \<open>v\<close> as new data. \<open>final d v\<close> is the plain value immer makes of
  \<open>v\<close> when the recipe is done: each draft in it is replaced by what it reads as
  in the draft \<open>d\<close> of the state (a reference that leads to no value reads as
  \<^verbatim>\<open>undefined\<close>).
\<close>

datatype dval =
    DUndefined
  | DNull
  | DBool bool
  | DNum int
  | DStr string
  | DArr "dval list"
  | DObj "(string \<times> dval) list"
  | DDraft ref

fun fresh :: "jsval \<Rightarrow> dval" where
  "fresh JUndefined = DUndefined"
| "fresh JNull = DNull"
| "fresh (JBool b) = DBool b"
| "fresh (JNum n) = DNum n"
| "fresh (JStr s) = DStr s"
| "fresh (JArr xs) = DArr (map fresh xs)"
| "fresh (JObj kvs) = DObj (map (\<lambda>(k, v). (k, fresh v)) kvs)"

fun final :: "jsval \<Rightarrow> dval \<Rightarrow> jsval" where
  "final d DUndefined = JUndefined"
| "final d DNull = JNull"
| "final d (DBool b) = JBool b"
| "final d (DNum n) = JNum n"
| "final d (DStr s) = JStr s"
| "final d (DArr xs) = JArr (map (final d) xs)"
| "final d (DObj kvs) = JObj (map (\<lambda>(k, v). (k, final d v)) kvs)"
| "final d (DDraft r) = (case walk r d of Inl _ \<Rightarrow> JUndefined | Inr v \<Rightarrow> v)"

text \<open>
  \<^verbatim>\<open>v[k]\<close> for a value of the recipe, \<open>d\<close> being the draft of the state. A container
  read from a draft is a draft again; anything else read is the value itself.
\<close>

fun get_d :: "jsval \<Rightarrow> dval \<Rightarrow> string \<Rightarrow> error + dval" where
  "get_d d (DDraft r) k =
     bindE (walk r d) (\<lambda>node.
     bindE (get_prop node k) (\<lambda>w.
     Inr (if is_container w then DDraft (r @ [k]) else fresh w)))"
| "get_d d (DObj kvs) k = Inr (case map_of kvs k of None \<Rightarrow> DUndefined | Some v \<Rightarrow> v)"
| "get_d d (DArr xs) k =
     Inr (if k = ''length'' then DNum (int (length xs))
          else case array_index k of
                 None \<Rightarrow> DUndefined
               | Some i \<Rightarrow> if i < length xs then xs ! i else DUndefined)"
| "get_d d v k = bindE (get_prop (final d v) k) (\<lambda>w. Inr (fresh w))"

fun walk_d :: "jsval \<Rightarrow> string list \<Rightarrow> dval \<Rightarrow> error + dval" where
  "walk_d d [] nestedState = Inr nestedState"
| "walk_d d (path # paths) nestedState =
     (case get_d d nestedState path of
        Inl e \<Rightarrow> Inl e
      | Inr v \<Rightarrow> walk_d d paths v)"

text \<open>
  \<open>getNestedState\<close> on a value of the recipe. As for a draft, what it returns is
  known by the keys that lead to it.
\<close>

definition getNestedState_d :: "string \<Rightarrow> jsval \<Rightarrow> dval \<Rightarrow> error + ref" where
  "getNestedState_d stateSelector d nestedState =
     (let possibleNestedPath = js_split CHR ''.'' stateSelector;
          isNestedPath = length possibleNestedPath > 1
      in case (if \<not> isNestedPath then get_d d nestedState stateSelector
               else walk_d d possibleNestedPath nestedState) of
           Inl e \<Rightarrow> Inl e
         | Inr _ \<Rightarrow> Inr (if \<not> isNestedPath then [stateSelector] else possibleNestedPath))"

text \<open>
  Whether an assignment \<^verbatim>\<open>c[k] = x\<close> to a draft \<open>c\<close> changes it. Assigning the
  primitive that the property already holds is no change for immer (assigning
  \<^verbatim>\<open>undefined\<close> to a property that does not exist is one). An array or object
  written in the recipe is a new one and always a change. For an array or object that
  comes with the action the values do not tell whether it is the very one the
  property holds; it is counted as a change here, and the store further down tells.
\<close>

fun has_prop :: "jsval \<Rightarrow> string \<Rightarrow> bool" where
  "has_prop (JObj kvs) k = (map_of kvs k \<noteq> None)"
| "has_prop (JArr xs) k =
     (k = ''length'' \<or> (case array_index k of None \<Rightarrow> False | Some i \<Rightarrow> i < length xs))"
| "has_prop _ k = False"

definition changes :: "jsval \<Rightarrow> string \<Rightarrow> dval \<Rightarrow> bool" where
  "changes c k x =
     (case x of
        DArr _ \<Rightarrow> True
      | DObj _ \<Rightarrow> True
      | DDraft _ \<Rightarrow> True
      | _ \<Rightarrow> \<not> (get_prop c k = Inr (final c x) \<and> (x \<noteq> DUndefined \<or> has_prop c k)))"

text \<open>
  The assignment \<^verbatim>\<open>v.p1. ... .pn[k] = x\<close> for a value \<open>v\<close> of the recipe. The
  state of the recipe is the draft of the state together with the flag that tells
  whether the draft has been changed. Where the keys reach a draft, the assignment
  goes to the draft. Where they stay in new data, the new object is written in place:
  a new object takes the property, a new array an index or a numeric \<^verbatim>\<open>length\<close>
  (with a named property it is no longer plain data), and a primitive nothing (a
  TypeError in strict mode).
\<close>

fun assign_d ::
  "ref \<Rightarrow> string \<Rightarrow> dval \<Rightarrow> jsval \<times> bool \<Rightarrow> dval \<Rightarrow> error + (jsval \<times> bool) \<times> dval" where
  "assign_d ps k x (d, m) (DDraft r) =
     bindE (walk (r @ ps) d) (\<lambda>c.
     bindE (assign (r @ ps) k (final d x) d) (\<lambda>d'.
     Inr ((d', m \<or> changes c k x), DDraft r)))"
| "assign_d [] k x sc (DObj kvs) = Inr (sc, DObj (AList.update k x kvs))"
| "assign_d [] k x sc (DArr xs) =
     (if k = ''length'' then
        (case x of
           DNum n \<Rightarrow>
             if 0 \<le> n \<and> n < 4294967296
             then Inr (sc, DArr (take (nat n) xs @ replicate (nat n - length xs) DUndefined))
             else Inl RangeError
         | _ \<Rightarrow> Inl RangeError)
      else case array_index k of
             None \<Rightarrow> Inl NotPlainData
           | Some i \<Rightarrow>
               Inr (sc, DArr (if i < length xs then xs[i := x]
                              else xs @ replicate (i - length xs) DUndefined @ [x])))"
| "assign_d [] k x sc v = Inl TypeError"
| "assign_d (p # ps) k x sc (DObj kvs) =
     (case assign_d ps k x sc (case map_of kvs p of None \<Rightarrow> DUndefined | Some v \<Rightarrow> v) of
        Inl e \<Rightarrow> Inl e
      | Inr (sc', child') \<Rightarrow> Inr (sc', DObj (AList.update p child' kvs)))"
| "assign_d (p # ps) k x sc (DArr xs) =
     (case array_index p of
        None \<Rightarrow> Inl TypeError
      | Some i \<Rightarrow>
          if i < length xs then
            (case assign_d ps k x sc (xs ! i) of
               Inl e \<Rightarrow> Inl e
             | Inr (sc', child') \<Rightarrow> Inr (sc', DArr (xs[i := child'])))
          else Inl TypeError)"
| "assign_d (p # ps) k x sc v = Inl TypeError"

text \<open>
  \<^verbatim>\<open>produce(base, recipe)\<close>. A recipe ends in one of two ways. \<open>Edited d\<close>: it has
  no return statement and leaves its draft, which reads as \<open>d\<close>. \<open>Returned d m v\<close>:
  it returns the value \<open>v\<close> and leaves its draft, which reads as \<open>d\<close> and has been
  changed or not (\<open>m\<close>). The next state is the draft when the recipe returns nothing,
  \<^verbatim>\<open>undefined\<close> or the draft of the state itself. When it returns anything else,
  immer refuses a recipe that has also changed its draft, and otherwise the next state
  is the value returned. An exception in the recipe leaves \<^verbatim>\<open>produce\<close>.
\<close>

datatype ('d, 'v) outcome = Edited 'd | Returned 'd bool 'v

definition produce :: "jsval \<Rightarrow> (jsval \<Rightarrow> error + (jsval, dval) outcome) \<Rightarrow> error + jsval" where
  "produce base recipe =
     (case recipe base of
        Inl e \<Rightarrow> Inl e
      | Inr (Edited draft) \<Rightarrow> Inr draft
      | Inr (Returned draft modified result) \<Rightarrow>
          if result = DUndefined \<or> result = DDraft [] then Inr draft
          else if modified then Inl ImmerError
          else Inr (final draft result))"

section \<open>Patch handlers\<close>

text \<open>
  A dispatched action is an object: its \<^verbatim>\<open>type\<close> and its payload properties.
  \<^verbatim>\<open>on(creator, reducer)\<close> pairs the type of the creator with the reducer. The
  optional \<^verbatim>\<open>reducerFunction\<close> is called with the draft and the data. It may change
  the draft (\<open>changed\<close> is then what the draft reads as afterwards) and it returns a
  value (\<open>returned\<close>): its draft, or a value of its own that may hold drafts it has
  read. It may also throw.
\<close>

type_synonym Action = "(string \<times> jsval) list"

definition action_prop :: "Action \<Rightarrow> string \<Rightarrow> jsval" where
  "action_prop a k = (case map_of a k of None \<Rightarrow> JUndefined | Some v \<Rightarrow> v)"

record ('s, 'a) On =
  types :: "string list"
  reducer :: "'s \<Rightarrow> 'a \<Rightarrow> error + 's"

definition on :: "ActionCreator \<Rightarrow> ('s \<Rightarrow> 'a \<Rightarrow> error + 's) \<Rightarrow> ('s, 'a) On" where
  "on creator r = \<lparr>types = [actionType creator], reducer = r\<rparr>"

record Merge =
  changed :: "jsval option"
  returned :: dval

type_synonym ReducerFunction = "jsval \<Rightarrow> jsval \<Rightarrow> error + Merge"

definition onLoad :: "ActionGroup \<Rightarrow> string \<Rightarrow> (jsval, Action) On" where
  "onLoad actionGroup pathWithoutProperty' =
     on (load actionGroup) (\<lambda>state _.
       produce state (\<lambda>draft.
         bindE (getNestedState_draft pathWithoutProperty' draft) (\<lambda>nestedState.
         bindE (assign nestedState ''loading'' (JBool True) draft) (\<lambda>draft.
         bindE (assign nestedState ''errors'' (JArr []) draft) (\<lambda>draft.
         Inr (Edited draft))))))"

text \<open>
  The draft, and whether it has been changed, after the call of \<^verbatim>\<open>reducerFunction\<close>.
\<close>

definition scope_after :: "jsval \<Rightarrow> Merge \<Rightarrow> jsval \<times> bool" where
  "scope_after draft merge =
     (case changed merge of None \<Rightarrow> (draft, False) | Some d \<Rightarrow> (d, True))"

definition onLoadSuccess ::
  "ActionGroup \<Rightarrow> string \<Rightarrow> string \<Rightarrow> ReducerFunction option \<Rightarrow> (jsval, Action) On" where
  "onLoadSuccess actionGroup pathWithoutProperty' propertyName' reducerFunction =
     on (loadSuccess actionGroup) (\<lambda>state data.
       produce state (\<lambda>draft.
         bindE (case reducerFunction of
                  Some f \<Rightarrow> f draft (action_prop data ''data'')
                | None \<Rightarrow> Inr \<lparr>changed = None, returned = DDraft []\<rparr>) (\<lambda>merge.
         let scope = scope_after draft merge;
             nextState = returned merge
         in
         bindE (getNestedState_d pathWithoutProperty' (fst scope) nextState) (\<lambda>nestedState.
         bindE (case reducerFunction of
                  None \<Rightarrow>
                    assign_d nestedState propertyName' (fresh (action_prop data ''data''))
                      scope nextState
                | Some _ \<Rightarrow> Inr (scope, nextState)) (\<lambda>(scope, nextState).
         bindE (assign_d nestedState ''errors'' (DArr []) scope nextState) (\<lambda>(scope, nextState).
         bindE (assign_d nestedState ''loading'' (DBool False) scope nextState)
           (\<lambda>(scope, nextState).
         Inr (Returned (fst scope) (snd scope) nextState))))))))"

definition onLoadFailure :: "ActionGroup \<Rightarrow> string \<Rightarrow> (jsval, Action) On" where
  "onLoadFailure actionGroup pathWithoutProperty' =
     on (loadFailure actionGroup) (\<lambda>state errors.
       produce state (\<lambda>draft.
         bindE (getNestedState_draft pathWithoutProperty' draft) (\<lambda>nestedState.
         bindE (assign nestedState ''loading'' (JBool False) draft) (\<lambda>draft.
         bindE (assign nestedState ''errors'' (action_prop errors ''errors'') draft) (\<lambda>draft.
         Inr (Edited draft))))))"

definition onReset :: "ActionGroup \<Rightarrow> string \<Rightarrow> string \<Rightarrow> jsval \<Rightarrow> (jsval, Action) On" where
  "onReset actionGroup pathWithoutProperty' propertyName' initialData =
     on (reset actionGroup) (\<lambda>state _.
       produce state (\<lambda>draft.
         bindE (getNestedState_draft pathWithoutProperty' draft) (\<lambda>nestedState.
         bindE (assign nestedState propertyName' initialData draft) (\<lambda>draft.
         bindE (assign nestedState ''errors'' (JArr []) draft) (\<lambda>draft.
         bindE (assign nestedState ''loading'' (JBool False) draft) (\<lambda>draft.
         Inr (Edited draft)))))))"

text \<open>
  \<^verbatim>\<open>onActionGroup\<close>: the console output of the path decomposition, and the four
  handlers, unless reading the initial data throws.
\<close>

definition onActionGroup ::
  "ActionGroup \<Rightarrow> string \<Rightarrow> jsval \<Rightarrow> ReducerFunction option
     \<Rightarrow> string list \<times> (error + (jsval, Action) On list)" where
  "onActionGroup actionGroup stateSelector state reducerFunction =
     (let (console, names) = getNestedStatePathName stateSelector
      in (console,
          case getNestedState stateSelector state of
            Inl e \<Rightarrow> Inl e
          | Inr initialData \<Rightarrow>
              Inr [onLoad actionGroup (pathWithoutProperty names),
                   onLoadSuccess actionGroup (pathWithoutProperty names) (propertyName names)
                     reducerFunction,
                   onLoadFailure actionGroup (pathWithoutProperty names),
                   onReset actionGroup (pathWithoutProperty names) (propertyName names)
                     initialData]))"

section \<open>Paths that miss each other\<close>


section \<open>Dispatching\<close>





section \<open>The store\<close>

text \<open>
  To observe which object a value is, the state is placed in a store. Objects and
  arrays are cells of the store, known by their address; a property holds a primitive
  or the address of a cell. The store only grows: a new object takes the next address.
  \<open>CObj\<close> is a plain object and \<open>CArr\<close> an array. \<open>CInst\<close> is an instance of a
  class, with its own properties: an object of which immer makes no draft (its class
  is not marked as immerable). Maps and sets are not modelled, nor is freezing: an
  object that is written in place is taken not to be frozen.
\<close>

type_synonym addr = nat

datatype hval = HUndefined | HNull | HBool bool | HNum int | HStr string | HRef addr

datatype cell =
    CObj "(string \<times> hval) list"
  | CArr "hval list"
  | CInst "(string \<times> hval) list"

type_synonym store = "cell list"

definition alloc :: "store \<Rightarrow> cell \<Rightarrow> store \<times> hval" where
  "alloc h c = (h @ [c], HRef (length h))"

fun cell_get :: "cell \<Rightarrow> string \<Rightarrow> hval" where
  "cell_get (CObj kvs) k = (case map_of kvs k of None \<Rightarrow> HUndefined | Some v \<Rightarrow> v)"
| "cell_get (CInst kvs) k = (case map_of kvs k of None \<Rightarrow> HUndefined | Some v \<Rightarrow> v)"
| "cell_get (CArr xs) k =
     (if k = ''length'' then HNum (int (length xs))
      else case array_index k of
             None \<Rightarrow> HUndefined
           | Some i \<Rightarrow> if i < length xs then xs ! i else HUndefined)"

fun cell_has :: "cell \<Rightarrow> string \<Rightarrow> bool" where
  "cell_has (CObj kvs) k = (map_of kvs k \<noteq> None)"
| "cell_has (CInst kvs) k = (map_of kvs k \<noteq> None)"
| "cell_has (CArr xs) k =
     (k = ''length'' \<or> (case array_index k of None \<Rightarrow> False | Some i \<Rightarrow> i < length xs))"

text \<open>
  \<^verbatim>\<open>c[k] = x\<close> on the draft of a cell: as for the values above, an array draft
  refuses a key that is neither an index nor \<^verbatim>\<open>length\<close>. \<open>cell_set_raw\<close> is the
  assignment to the object itself: there an array takes the named property and is
  no longer plain data.
\<close>

fun cell_set :: "cell \<Rightarrow> string \<Rightarrow> hval \<Rightarrow> error + cell" where
  "cell_set (CObj kvs) k x = Inr (CObj (AList.update k x kvs))"
| "cell_set (CInst kvs) k x = Inr (CInst (AList.update k x kvs))"
| "cell_set (CArr xs) k x =
     (if k = ''length'' then
        (case x of
           HNum n \<Rightarrow>
             if 0 \<le> n \<and> n < 4294967296
             then Inr (CArr (take (nat n) xs @ replicate (nat n - length xs) HUndefined))
             else Inl RangeError
         | _ \<Rightarrow> Inl RangeError)
      else case array_index k of
             None \<Rightarrow> Inl ImmerError
           | Some i \<Rightarrow>
               Inr (CArr (if i < length xs then xs[i := x]
                          else xs @ replicate (i - length xs) HUndefined @ [x])))"

definition cell_set_raw :: "cell \<Rightarrow> string \<Rightarrow> hval \<Rightarrow> error + cell" where
  "cell_set_raw c k x =
     (case cell_set c k x of
        Inl e \<Rightarrow> Inl (if e = ImmerError then NotPlainData else e)
      | Inr c' \<Rightarrow> Inr c')"

text \<open>\<^verbatim>\<open>v[k]\<close> in the store. An address outside the store is not a value of the program.\<close>

fun read_prop :: "store \<Rightarrow> hval \<Rightarrow> string \<Rightarrow> error + hval" where
  "read_prop h HUndefined k = Inl TypeError"
| "read_prop h HNull k = Inl TypeError"
| "read_prop h (HRef a) k = (if a < length h then Inr (cell_get (h ! a) k) else Inl TypeError)"
| "read_prop h (HStr s) k =
     Inr (if k = ''length'' then HNum (int (length s))
          else case array_index k of
                 None \<Rightarrow> HUndefined
               | Some i \<Rightarrow> if i < length s then HStr [s ! i] else HUndefined)"
| "read_prop h (HBool b) k = Inr HUndefined"
| "read_prop h (HNum n) k = Inr HUndefined"

fun walk_s :: "store \<Rightarrow> string list \<Rightarrow> hval \<Rightarrow> error + hval" where
  "walk_s h [] nestedState = Inr nestedState"
| "walk_s h (path # paths) nestedState =
     (case read_prop h nestedState path of
        Inl e \<Rightarrow> Inl e
      | Inr v \<Rightarrow> walk_s h paths v)"

definition getNestedState_s :: "string \<Rightarrow> store \<Rightarrow> hval \<Rightarrow> error + hval" where
  "getNestedState_s stateSelector h nestedState =
     (let possibleNestedPath = js_split CHR ''.'' stateSelector;
          isNestedPath = length possibleNestedPath > 1
      in if \<not> isNestedPath then read_prop h nestedState stateSelector
         else walk_s h possibleNestedPath nestedState)"

definition getNestedState_draft_s :: "string \<Rightarrow> store \<Rightarrow> hval \<Rightarrow> error + ref" where
  "getNestedState_draft_s stateSelector h draft =
     (let possibleNestedPath = js_split CHR ''.'' stateSelector;
          isNestedPath = length possibleNestedPath > 1
      in case getNestedState_s stateSelector h draft of
           Inl e \<Rightarrow> Inl e
         | Inr _ \<Rightarrow> Inr (if \<not> isNestedPath then [stateSelector] else possibleNestedPath))"

subsection \<open>Copy on write\<close>

text \<open>
  \<^verbatim>\<open>produce\<close> of immer, on the store. The plain objects and arrays that exist when
  \<^verbatim>\<open>produce\<close> is entered (addresses below \<open>b\<close>) are drafted and never written. An
  assignment that gives a property of a draft the value it already has (the same
  primitive, or the same object) is not a change; the first change writes to a copy of
  the object, at a new address, and later changes write to that copy. A changed child
  is linked into its parent in the same way, up to the root.

  An instance of a class is not drafted: what a draft reads there is the instance
  itself, what is read from the instance are the objects themselves, and an assignment
  through it writes the object it reaches, in place (\<open>assign_raw\<close>). \<^verbatim>\<open>produce\<close>
  called on an instance throws.
\<close>

fun draftable :: "cell \<Rightarrow> bool" where
  "draftable (CInst kvs) = False"
| "draftable _ = True"

definition is_raw :: "store \<Rightarrow> hval \<Rightarrow> bool" where
  "is_raw h v = (case v of HRef a \<Rightarrow> a < length h \<and> \<not> draftable (h ! a) | _ \<Rightarrow> False)"

definition same_value :: "cell \<Rightarrow> string \<Rightarrow> hval \<Rightarrow> bool" where
  "same_value c k x = (cell_get c k = x \<and> (x \<noteq> HUndefined \<or> cell_has c k))"

definition write_cell :: "nat \<Rightarrow> store \<Rightarrow> addr \<Rightarrow> cell \<Rightarrow> store \<times> hval" where
  "write_cell b h a c = (if a < b then (h @ [c], HRef (length h)) else (h[a := c], HRef a))"

fun store_prop :: "nat \<Rightarrow> store \<Rightarrow> hval \<Rightarrow> string \<Rightarrow> hval \<Rightarrow> error + store \<times> hval" where
  "store_prop b h (HRef a) k x =
     (if a < length h then
        (case cell_set (h ! a) k x of
           Inl e \<Rightarrow> Inl e
         | Inr c \<Rightarrow> if same_value (h ! a) k x then Inr (h, HRef a) else Inr (write_cell b h a c))
      else Inl TypeError)"
| "store_prop b h _ k x = Inl TypeError"

fun cell_link :: "cell \<Rightarrow> string \<Rightarrow> hval \<Rightarrow> error + cell" where
  "cell_link (CObj kvs) k child = Inr (CObj (AList.update k child kvs))"
| "cell_link (CInst kvs) k child = Inr (CInst (AList.update k child kvs))"
| "cell_link (CArr xs) k child =
     (case array_index k of
        None \<Rightarrow> Inl TypeError
      | Some i \<Rightarrow> if i < length xs then Inr (CArr (xs[i := child])) else Inl TypeError)"

fun link_child :: "nat \<Rightarrow> store \<Rightarrow> hval \<Rightarrow> string \<Rightarrow> hval \<Rightarrow> error + store \<times> hval" where
  "link_child b h (HRef a) k child =
     (if a < length h then
        (case cell_link (h ! a) k child of
           Inl e \<Rightarrow> Inl e
         | Inr c \<Rightarrow> Inr (write_cell b h a c))
      else Inl TypeError)"
| "link_child b h _ k child = Inl TypeError"

fun assign_raw :: "ref \<Rightarrow> string \<Rightarrow> hval \<Rightarrow> store \<Rightarrow> hval \<Rightarrow> error + store" where
  "assign_raw [] k x h (HRef a) =
     (if a < length h then
        (case cell_set_raw (h ! a) k x of
           Inl e \<Rightarrow> Inl e
         | Inr c \<Rightarrow> Inr (h[a := c]))
      else Inl TypeError)"
| "assign_raw [] k x h _ = Inl TypeError"
| "assign_raw (p # ps) k x h node =
     (case read_prop h node p of
        Inl e \<Rightarrow> Inl e
      | Inr child \<Rightarrow> assign_raw ps k x h child)"

fun assign_s :: "nat \<Rightarrow> ref \<Rightarrow> string \<Rightarrow> hval \<Rightarrow> store \<Rightarrow> hval \<Rightarrow> error + store \<times> hval" where
  "assign_s b [] k x h node =
     (if is_raw h node then
        (case assign_raw [] k x h node of Inl e \<Rightarrow> Inl e | Inr h' \<Rightarrow> Inr (h', node))
      else store_prop b h node k x)"
| "assign_s b (p # ps) k x h node =
     (if is_raw h node then
        (case assign_raw (p # ps) k x h node of Inl e \<Rightarrow> Inl e | Inr h' \<Rightarrow> Inr (h', node))
      else case read_prop h node p of
             Inl e \<Rightarrow> Inl e
           | Inr child \<Rightarrow>
               (case assign_s b ps k x h child of
                  Inl e \<Rightarrow> Inl e
                | Inr (h', child') \<Rightarrow>
                    if child' = child then Inr (h', node) else link_child b h' node p child'))"

text \<open>
  The assignment that also tells whether it has changed a draft: a draft that is
  changed is copied, or its copy linked into a copy of its parent, so that the store
  has grown; an assignment to a copy or to an object that is not a draft leaves the
  size of the store as it is.
\<close>

definition assign_m ::
  "nat \<Rightarrow> ref \<Rightarrow> string \<Rightarrow> hval \<Rightarrow> store \<times> bool \<Rightarrow> hval \<Rightarrow> error + (store \<times> bool) \<times> hval" where
  "assign_m b ps k x sc node =
     (case assign_s b ps k x (fst sc) node of
        Inl e \<Rightarrow> Inl e
      | Inr (h', node') \<Rightarrow> Inr ((h', snd sc \<or> length (fst sc) < length h'), node'))"

text \<open>
  \<^verbatim>\<open>produce\<close> on the store. The recipe is given the address \<open>b\<close> from which the
  new objects start. The next state is the root of the draft when the recipe returns
  nothing, \<^verbatim>\<open>undefined\<close> or that root: the state passed in when nothing changed
  (immer returns its base then), the copy of the root otherwise. When the recipe
  returns another value, immer refuses it if the draft has been changed, and
  otherwise that value is the next state.
\<close>

definition produce_s ::
  "store \<times> hval \<Rightarrow> (nat \<Rightarrow> store \<times> hval \<Rightarrow> error + (store \<times> hval, hval) outcome)
     \<Rightarrow> error + store \<times> hval" where
  "produce_s base recipe =
     (if is_raw (fst base) (snd base) then Inl ImmerError
      else case recipe (length (fst base)) base of
             Inl e \<Rightarrow> Inl e
           | Inr (Edited draft) \<Rightarrow> Inr draft
           | Inr (Returned draft modified result) \<Rightarrow>
               if result = HUndefined \<or> result = snd draft then Inr draft
               else if modified then Inl ImmerError
               else Inr (fst draft, result))"

subsection \<open>The handlers on the store\<close>

text \<open>
  The four handlers on the store, statement by statement as above. The array literal
  \<^verbatim>\<open>[]\<close> is a new cell each time it is evaluated. The values carried by an action,
  and the initial data kept for reset, are primitives or addresses of cells. A custom
  \<^verbatim>\<open>reducerFunction\<close> is called with the store and the root of the draft, and leaves
  the store, the root of the draft (another one when it has changed the draft) and
  the value it returns; it may also throw. It is taken to reach the objects that
  existed before only through its draft, so that a plain object or array below \<open>b\<close>
  that its value holds is a draft, and the arrays it builds are treated as drafts are.
\<close>

type_synonym SAction = "(string \<times> hval) list"

type_synonym SReducerFunction = "store \<times> hval \<Rightarrow> hval \<Rightarrow> error + store \<times> hval \<times> hval"

definition action_prop_s :: "SAction \<Rightarrow> string \<Rightarrow> hval" where
  "action_prop_s a k = (case map_of a k of None \<Rightarrow> HUndefined | Some v \<Rightarrow> v)"

definition onLoad_s :: "ActionGroup \<Rightarrow> string \<Rightarrow> (store \<times> hval, SAction) On" where
  "onLoad_s actionGroup pathWithoutProperty' =
     on (load actionGroup) (\<lambda>state _.
       produce_s state (\<lambda>b (h, draft).
         bindE (getNestedState_draft_s pathWithoutProperty' h draft) (\<lambda>nestedState.
         bindE (assign_s b nestedState ''loading'' (HBool True) h draft) (\<lambda>(h, draft).
         case alloc h (CArr []) of (h, arr) \<Rightarrow>
         bindE (assign_s b nestedState ''errors'' arr h draft) (\<lambda>(h, draft).
         Inr (Edited (h, draft)))))))"

definition onLoadSuccess_s ::
  "ActionGroup \<Rightarrow> string \<Rightarrow> string \<Rightarrow> SReducerFunction option
     \<Rightarrow> (store \<times> hval, SAction) On" where
  "onLoadSuccess_s actionGroup pathWithoutProperty' propertyName' reducerFunction =
     on (loadSuccess actionGroup) (\<lambda>state data.
       produce_s state (\<lambda>b (h, draft).
         bindE (case reducerFunction of
                  Some f \<Rightarrow> f (h, draft) (action_prop_s data ''data'')
                | None \<Rightarrow> Inr (h, draft, draft)) (\<lambda>(h, draft', nextState).
         bindE (getNestedState_draft_s pathWithoutProperty' h nextState) (\<lambda>nestedState.
         bindE (case reducerFunction of
                  None \<Rightarrow>
                    assign_m b nestedState propertyName' (action_prop_s data ''data'')
                      (h, draft' \<noteq> draft) nextState
                | Some _ \<Rightarrow> Inr ((h, draft' \<noteq> draft), nextState)) (\<lambda>((h, m), next1).
         case alloc h (CArr []) of (h, arr) \<Rightarrow>
         bindE (assign_m b nestedState ''errors'' arr (h, m) next1) (\<lambda>((h, m), next2).
         bindE (assign_m b nestedState ''loading'' (HBool False) (h, m) next2)
           (\<lambda>((h, m), next3).
         Inr (Returned (h, if nextState = draft' then next3 else draft') m next3))))))))"

definition onLoadFailure_s :: "ActionGroup \<Rightarrow> string \<Rightarrow> (store \<times> hval, SAction) On" where
  "onLoadFailure_s actionGroup pathWithoutProperty' =
     on (loadFailure actionGroup) (\<lambda>state errors.
       produce_s state (\<lambda>b (h, draft).
         bindE (getNestedState_draft_s pathWithoutProperty' h draft) (\<lambda>nestedState.
         bindE (assign_s b nestedState ''loading'' (HBool False) h draft) (\<lambda>(h, draft).
         bindE (assign_s b nestedState ''errors'' (action_prop_s errors ''errors'') h draft)
           (\<lambda>(h, draft).
         Inr (Edited (h, draft)))))))"

definition onReset_s ::
  "ActionGroup \<Rightarrow> string \<Rightarrow> string \<Rightarrow> hval \<Rightarrow> (store \<times> hval, SAction) On" where
  "onReset_s actionGroup pathWithoutProperty' propertyName' initialData =
     on (reset actionGroup) (\<lambda>state _.
       produce_s state (\<lambda>b (h, draft).
         bindE (getNestedState_draft_s pathWithoutProperty' h draft) (\<lambda>nestedState.
         bindE (assign_s b nestedState propertyName' initialData h draft) (\<lambda>(h, draft).
         case alloc h (CArr []) of (h, arr) \<Rightarrow>
         bindE (assign_s b nestedState ''errors'' arr h draft) (\<lambda>(h, draft).
         bindE (assign_s b nestedState ''loading'' (HBool False) h draft) (\<lambda>(h, draft).
         Inr (Edited (h, draft))))))))"

definition onActionGroup_s ::
  "ActionGroup \<Rightarrow> string \<Rightarrow> store \<times> hval \<Rightarrow> SReducerFunction option
     \<Rightarrow> string list \<times> (error + (store \<times> hval, SAction) On list)" where
  "onActionGroup_s actionGroup stateSelector state reducerFunction =
     (let (console, names) = getNestedStatePathName stateSelector
      in (console,
          case getNestedState_s stateSelector (fst state) (snd state) of
            Inl e \<Rightarrow> Inl e
          | Inr initialData \<Rightarrow>
              Inr [onLoad_s actionGroup (pathWithoutProperty names),
                   onLoadSuccess_s actionGroup (pathWithoutProperty names) (propertyName names)
                     reducerFunction,
                   onLoadFailure_s actionGroup (pathWithoutProperty names),
                   onReset_s actionGroup (pathWithoutProperty names) (propertyName names)
                     initialData]))"

text \<open>A store is closed when every address held in one of its cells is in the store.\<close>

fun cell_values :: "cell \<Rightarrow> hval list" where
  "cell_values (CObj kvs) = map snd kvs"
| "cell_values (CInst kvs) = map snd kvs"
| "cell_values (CArr xs) = xs"

definition store_ok :: "store \<Rightarrow> bool" where
  "store_ok h = (\<forall>c \<in> set h. \<forall>v \<in> set (cell_values c). \<forall>a. v = HRef a \<longrightarrow> a < length h)"

text \<open>
  \<open>plain_path h ps s\<close>: none of the objects met from the state \<open>s\<close> along the keys
  \<open>ps\<close>, down to the container, is an instance of a class.
\<close>

fun plain_path :: "store \<Rightarrow> ref \<Rightarrow> hval \<Rightarrow> bool" where
  "plain_path h [] node = (\<not> is_raw h node)"
| "plain_path h (p # ps) node =
     (\<not> is_raw h node
      \<and> (case read_prop h node p of Inl e \<Rightarrow> True | Inr child \<Rightarrow> plain_path h ps child))"

text \<open>
  The levels of a path: \<open>olds\<close> when every object on the path from a node is a plain
  object or array that existed when \<^verbatim>\<open>produce\<close> was entered, \<open>news\<close> when every
  one is a copy made since, each older than its parent.
\<close>

fun olds :: "nat \<Rightarrow> store \<Rightarrow> ref \<Rightarrow> hval \<Rightarrow> bool" where
  "olds b h [] node = (case node of HRef a \<Rightarrow> a < b \<and> draftable (h ! a) | _ \<Rightarrow> False)"
| "olds b h (p # ps) node =
     (case node of
        HRef a \<Rightarrow> a < b \<and> draftable (h ! a) \<and> olds b h ps (cell_get (h ! a) p)
      | _ \<Rightarrow> False)"

fun news :: "nat \<Rightarrow> nat \<Rightarrow> store \<Rightarrow> ref \<Rightarrow> hval \<Rightarrow> bool" where
  "news b u h [] node =
     (case node of HRef a \<Rightarrow> b \<le> a \<and> a < u \<and> draftable (h ! a) | _ \<Rightarrow> False)"
| "news b u h (p # ps) node =
     (case node of
        HRef a \<Rightarrow> b \<le> a \<and> a < u \<and> draftable (h ! a) \<and> news b a h ps (cell_get (h ! a) p)
      | _ \<Rightarrow> False)"

text \<open>
  \<open>unchanged h h'\<close>: every object of the store \<open>h\<close> is in \<open>h'\<close> as it was.
  \<open>already_failed p h s a\<close>: the container at the path \<open>p\<close> of the state already
  has loading = false and, as its errors, the very value the action \<open>a\<close> carries.
  \<open>new_levels h s h' s' ps\<close>: at every level of the path, from the root to the
  container, the state \<open>s'\<close> in \<open>h'\<close> has an object that is not in \<open>h\<close>, where
  \<open>s\<close> has an object of \<open>h\<close>.
\<close>

definition unchanged :: "store \<Rightarrow> store \<Rightarrow> bool" where
  "unchanged h h' = (length h \<le> length h' \<and> (\<forall>i<length h. h' ! i = h ! i))"

definition already_failed :: "string \<Rightarrow> store \<Rightarrow> hval \<Rightarrow> SAction \<Rightarrow> bool" where
  "already_failed p h s a =
     (case getNestedState_s p h s of
        Inr (HRef c) \<Rightarrow>
          c < length h \<and> same_value (h ! c) ''loading'' (HBool False)
          \<and> same_value (h ! c) ''errors'' (action_prop_s a ''errors'')
      | _ \<Rightarrow> False)"

definition new_levels :: "store \<Rightarrow> hval \<Rightarrow> store \<Rightarrow> hval \<Rightarrow> ref \<Rightarrow> bool" where
  "new_levels h s h' s' ps =
     (\<forall>n\<le>length ps. \<exists>a a'.
        walk_s h (take n ps) s = Inr (HRef a) \<and> a < length h
        \<and> walk_s h' (take n ps) s' = Inr (HRef a') \<and> length h \<le> a' \<and> a' < length h')"

section \<open>Example inputs\<close>

definition todo_actions :: ActionGroup where
  "todo_actions = createDataFlowActions \<lparr>source = ''Todo'', action = ''Load todo list''\<rparr>"

definition idle_list :: jsval where
  "idle_list =
     JObj [(''list'', JObj [(''data'', JArr []), (''loading'', JBool False), (''errors'', JArr [])])]"





definition example_store :: store where
  "example_store =
     [CObj [(''list'', HRef 1)],
      CObj [(''data'', HRef 2), (''loading'', HBool False), (''errors'', HRef 3)],
      CArr [],
      CArr [HStr ''network'']]"

text \<open>The same state with an instance of a class as the container.\<close>

definition instance_store :: store where
  "instance_store =
     [CObj [(''list'', HRef 1)],
      CInst [(''data'', HRef 2), (''loading'', HBool False), (''errors'', HRef 3)],
      CArr [],
      CArr [HStr ''network'']]"

text \<open>
  \<^verbatim>\<open>(state, d) => ({...state, count: 1})\<close> on the store: a new object with the own
  properties of the state and count = 1; the draft is left as it is.
\<close>

fun spread_s :: "store \<Rightarrow> hval \<Rightarrow> (string \<times> hval) list" where
  "spread_s h (HRef a) =
     (if a < length h then
        (case h ! a of
           CObj kvs \<Rightarrow> kvs
         | CInst kvs \<Rightarrow> kvs
         | CArr xs \<Rightarrow> map (\<lambda>i. (decimal (int i), xs ! i)) [0..<length xs])
      else [])"
| "spread_s h (HStr s) = map (\<lambda>i. (decimal (int i), HStr [s ! i])) [0..<length s]"
| "spread_s h _ = []"

definition merge_count_s :: SReducerFunction where
  "merge_count_s state d =
     (case state of (h, draft) \<Rightarrow>
        Inr (h @ [CObj (AList.update ''count'' (HNum 1) (spread_s h draft))],
             draft, HRef (length h)))"

section \<open>Properties of the path resolver\<close>

subsection \<open>split and join\<close>

lemma js_split_nonempty [simp]: "js_split c s \<noteq> []"
  by (induction s) auto

lemma js_split_no_sep: "c \<notin> set s \<Longrightarrow> js_split c s = [s]"
  by (induction s) auto

lemma js_split_length: "(Suc 0 < length (js_split c s)) = (c \<in> set s)"
proof (induction s)
  case Nil
  then show ?case by simp
next
  case (Cons x xs)
  have "length (tl (js_split c xs)) = length (js_split c xs) - 1" by simp
  moreover have "0 < length (js_split c xs)" by simp
  ultimately show ?case using Cons by auto
qed

lemma js_join_Cons: "ss \<noteq> [] \<Longrightarrow> js_join sep (s # ss) = s @ sep @ js_join sep ss"
  by (cases ss) auto

lemma js_join_split: "js_join [c] (js_split c s) = s"
proof (induction s)
  case Nil
  then show ?case by simp
next
  case (Cons x xs)
  obtain h t where ht: "js_split c xs = h # t"
    by (cases "js_split c xs") auto
  show ?case
  proof (cases "x = c")
    case True
    then show ?thesis using Cons by (simp add: js_join_Cons)
  next
    case False
    then show ?thesis using Cons ht by (cases t) auto
  qed
qed

lemma js_split_segments: "seg \<in> set (js_split c s) \<Longrightarrow> c \<notin> set seg"
proof (induction s arbitrary: seg)
  case Nil
  then show ?case by simp
next
  case (Cons x xs)
  obtain h t where ht: "js_split c xs = h # t"
    by (cases "js_split c xs") auto
  with Cons show ?case by (auto split: if_splits)
qed

subsection \<open>The traversal\<close>

lemma walk_single: "walk [k] v = get_prop v k"
  by (cases "get_prop v k") auto

lemma getNestedState_walk: "getNestedState sel v = walk (js_split CHR ''.'' sel) v"
proof (cases "CHR ''.'' \<in> set sel")
  case True
  then show ?thesis by (simp add: getNestedState_def Let_def js_split_length)
next
  case False
  then show ?thesis
    by (simp add: getNestedState_def Let_def js_split_no_sep walk_single del: walk.simps)
qed

lemma getNestedState_draft_walk:
  "getNestedState_draft sel d =
     (case walk (js_split CHR ''.'' sel) d of Inl e \<Rightarrow> Inl e | Inr _ \<Rightarrow> Inr (js_split CHR ''.'' sel))"
proof (cases "CHR ''.'' \<in> set sel")
  case True
  then show ?thesis
    by (simp add: getNestedState_draft_def Let_def getNestedState_walk js_split_length)
next
  case False
  then show ?thesis
    by (simp add: getNestedState_draft_def Let_def getNestedState_walk js_split_no_sep
          del: walk.simps split: sum.splits)
qed


subsection \<open>Primitives have no containers below them\<close>




subsection \<open>Array indices\<close>

lemma array_index_Some: "array_index a = Some i \<Longrightarrow> a = decimal (int i)"
  by (auto simp: array_index_def Let_def split: if_splits)

lemma array_index_inj: "array_index a = Some i \<Longrightarrow> array_index b = Some i \<Longrightarrow> a = b"
  by (auto dest!: array_index_Some)

lemma array_index_loading [simp]: "array_index ''loading'' = None"
  by (simp add: array_index_def decimal.simps)

lemma array_index_errors [simp]: "array_index ''errors'' = None"
  by (simp add: array_index_def decimal.simps)

lemma array_index_length [simp]: "array_index ''length'' = None"
  by (simp add: array_index_def decimal.simps)

subsection \<open>Replacing a child\<close>


subsection \<open>Assignment through a reference\<close>


lemma assign_walk_error: "walk ps s = Inl e \<Longrightarrow> assign ps k x s = Inl e"
  by (induction ps arbitrary: s) (auto split: sum.splits)

lemma set_prop_flag_fails:
  "\<forall>c. v \<noteq> JObj c \<Longrightarrow> k = ''loading'' \<or> k = ''errors'' \<Longrightarrow> \<exists>e. set_prop v k x = Inl e"
  by (cases v) auto

lemma assign_not_object:
  "walk ps s = Inr v \<Longrightarrow> \<forall>c. v \<noteq> JObj c \<Longrightarrow> k = ''loading'' \<or> k = ''errors'' \<Longrightarrow>
   \<exists>e. assign ps k x s = Inl e"
proof (induction ps arbitrary: s)
  case Nil
  then show ?case using set_prop_flag_fails by simp
next
  case (Cons p ps)
  from Cons.prems obtain child where
    child: "get_prop s p = Inr child" and w: "walk ps child = Inr v"
    by (auto split: sum.splits)
  from Cons.IH [OF w Cons.prems(2,3)] obtain e where "assign ps k x child = Inl e" by blast
  with child show ?case by simp
qed

lemma assign_top:
  assumes "assign [k0] k x s = Inr s'" "q \<noteq> k0"
  shows "get_prop s' q = get_prop s q"
proof (cases s)
  case (JObj kvs)
  with assms show ?thesis by (auto simp: update_conv' split: sum.splits)
next
  case (JArr xs)
  with assms obtain i child' where i: "array_index k0 = Some i" "i < length xs"
    "s' = JArr (xs[i := child'])"
    by (auto split: sum.splits option.splits if_splits)
  show ?thesis
  proof (cases "array_index q")
    case None
    with JArr i show ?thesis by simp
  next
    case (Some j)
    with assms(2) i have "j \<noteq> i" using array_index_inj by blast
    with Some JArr i show ?thesis by simp
  qed
qed (use assms in \<open>auto split: sum.splits\<close>)

subsection \<open>Values held by a recipe\<close>

lemma final_fresh [simp]: "final d (fresh v) = v"
  by (induction v) (auto intro!: map_idI)

lemma fresh_not_draft [simp]: "fresh v \<noteq> DDraft r"
  by (cases v) auto






lemma walk_d_single: "walk_d d [k] v = get_d d v k"
  by (cases "get_d d v k") auto

lemma getNestedState_d_walk:
  "getNestedState_d sel d v =
     (case walk_d d (js_split CHR ''.'' sel) v of
        Inl e \<Rightarrow> Inl e
      | Inr _ \<Rightarrow> Inr (js_split CHR ''.'' sel))"
proof (cases "CHR ''.'' \<in> set sel")
  case True
  then show ?thesis by (simp add: getNestedState_d_def Let_def js_split_length)
next
  case False
  then show ?thesis
    by (simp add: getNestedState_d_def Let_def js_split_no_sep walk_d_single del: walk_d.simps
          split: sum.splits)
qed






section \<open>Properties of the handlers\<close>

subsection \<open>What each handler does to an object container\<close>











lemma onActionGroup_handlers:
  "snd (onActionGroup g sel st0 rf) = Inr hs \<longleftrightarrow>
     (\<exists>i. getNestedState sel st0 = Inr i
        \<and> hs = [onLoad g (pathWithoutProperty (snd (getNestedStatePathName sel))),
                onLoadSuccess g (pathWithoutProperty (snd (getNestedStatePathName sel)))
                  (propertyName (snd (getNestedStatePathName sel))) rf,
                onLoadFailure g (pathWithoutProperty (snd (getNestedStatePathName sel))),
                onReset g (pathWithoutProperty (snd (getNestedStatePathName sel)))
                  (propertyName (snd (getNestedStatePathName sel))) i])"
  by (cases "getNestedStatePathName sel") (auto simp: onActionGroup_def split: sum.splits)

lemmas handler_defs = onActionGroup_def getNestedStatePathName_def getNestedState_def
  getNestedState_draft_def onLoad_def onLoadSuccess_def onLoadFailure_def onReset_def on_def
  produce_def bindE_def js_pop_def nullish_def action_prop_def getNestedState_d_def
  scope_after_def Let_def

subsection \<open>Path decomposition\<close>

lemma nested_decomposition:
  assumes "CHR ''.'' \<in> set sel"
  shows "propertyName (snd (getNestedStatePathName sel)) = last (js_split CHR ''.'' sel)"
    and "pathWithoutProperty (snd (getNestedStatePathName sel))
           = js_join ''.'' (butlast (js_split CHR ''.'' sel))"
    and "parentName (snd (getNestedStatePathName sel)) = last (butlast (js_split CHR ''.'' sel))"
    and "fst (getNestedStatePathName sel) = []"
proof -
  from assms have "Suc 0 < length (js_split CHR ''.'' sel)" by (simp add: js_split_length)
  then have "butlast (js_split CHR ''.'' sel) \<noteq> []"
    by (cases "js_split CHR ''.'' sel" rule: rev_cases) auto
  then show "propertyName (snd (getNestedStatePathName sel)) = last (js_split CHR ''.'' sel)"
    and "pathWithoutProperty (snd (getNestedStatePathName sel))
           = js_join ''.'' (butlast (js_split CHR ''.'' sel))"
    and "parentName (snd (getNestedStatePathName sel)) = last (butlast (js_split CHR ''.'' sel))"
    and "fst (getNestedStatePathName sel) = []"
    using assms
    by (simp_all add: getNestedStatePathName_def Let_def js_pop_def nullish_def js_split_length)
qed

lemma single_decomposition:
  assumes "CHR ''.'' \<notin> set sel"
  shows "snd (getNestedStatePathName sel)
           = \<lparr>propertyName = sel, parentName = sel, pathWithoutProperty = ''''\<rparr>"
    and "fst (getNestedStatePathName sel) = [diagnostic sel]"
  using assms
  by (simp_all add: getNestedStatePathName_def Let_def js_pop_def nullish_def js_split_no_sep)

subsection \<open>Sequences of transitions\<close>





section \<open>Properties of the store\<close>

subsection \<open>Cells\<close>

lemma cell_get_link:
  "cell_link c p x = Inr c' \<Longrightarrow> cell_get c' p = x"
  by (cases c) (auto simp: update_conv' split: option.splits if_splits)

lemma cell_link_ref:
  "cell_get c p = HRef a \<Longrightarrow> \<exists>c'. cell_link c p x = Inr c'"
  by (cases c) (auto split: option.splits if_splits)

lemma cell_get_closed:
  "cell_get c k = HRef n \<Longrightarrow> HRef n \<in> set (cell_values c)"
  by (cases c)
    (auto split: option.splits if_splits dest: map_of_SomeD nth_mem intro: rev_image_eqI)

lemma store_ok_get:
  "store_ok h \<Longrightarrow> a < length h \<Longrightarrow> cell_get (h ! a) k = HRef n \<Longrightarrow> n < length h"
  unfolding store_ok_def using cell_get_closed nth_mem by blast

lemma cell_set_draftable: "cell_set c k x = Inr c' \<Longrightarrow> draftable c' = draftable c"
  by (cases c) (auto split: if_splits option.splits hval.splits)

lemma cell_link_draftable: "cell_link c k x = Inr c' \<Longrightarrow> draftable c' = draftable c"
  by (cases c) (auto split: if_splits option.splits)

lemma is_raw_ref [simp]: "is_raw h (HRef a) = (a < length h \<and> \<not> draftable (h ! a))"
  by (simp add: is_raw_def)

lemma is_raw_prim [simp]:
  "\<not> is_raw h HUndefined" "\<not> is_raw h HNull" "\<not> is_raw h (HBool b)" "\<not> is_raw h (HNum n)"
  "\<not> is_raw h (HStr s)"
  by (simp_all add: is_raw_def)

subsection \<open>Drafts are copied, not written\<close>

lemma write_cell_frame:
  assumes "write_cell b h a c = (h', n)" "a < length h"
  shows "length h \<le> length h'" and "\<forall>i<b. i < length h \<longrightarrow> h' ! i = h ! i"
  using assms by (auto simp: write_cell_def nth_append split: if_splits)

lemma store_prop_frame:
  assumes "store_prop b h node k x = Inr (h', n)"
  shows "length h \<le> length h' \<and> (\<forall>i<b. i < length h \<longrightarrow> h' ! i = h ! i)"
proof (cases node)
  case (HRef a)
  with assms show ?thesis
    by (auto split: if_splits sum.splits dest: write_cell_frame)
qed (use assms in auto)

lemma link_child_frame:
  assumes "link_child b h node k x = Inr (h', n)"
  shows "length h \<le> length h' \<and> (\<forall>i<b. i < length h \<longrightarrow> h' ! i = h ! i)"
proof (cases node)
  case (HRef a)
  with assms show ?thesis
    by (auto split: if_splits sum.splits dest: write_cell_frame)
qed (use assms in auto)

lemma assign_s_frame:
  "assign_s b ps k x h node = Inr (h', node') \<Longrightarrow> plain_path h ps node \<Longrightarrow>
   length h \<le> length h' \<and> (\<forall>i<b. i < length h \<longrightarrow> h' ! i = h ! i)"
proof (induction ps arbitrary: node h' node')
  case Nil
  then show ?case using store_prop_frame by simp
next
  case (Cons p ps)
  from Cons.prems obtain child h1 child' where
    c: "read_prop h node p = Inr child" and
    a: "assign_s b ps k x h child = Inr (h1, child')" and
    r: "(child' = child \<and> h' = h1 \<and> node' = node)
        \<or> (child' \<noteq> child \<and> link_child b h1 node p child' = Inr (h', node'))"
    by (auto split: sum.splits if_splits)
  from Cons.prems(2) c have "plain_path h ps child" by simp
  from Cons.IH [OF a this] have 1: "length h \<le> length h1" "\<forall>i<b. i < length h \<longrightarrow> h1 ! i = h ! i"
    by auto
  from r show ?case
  proof
    assume "child' = child \<and> h' = h1 \<and> node' = node"
    with 1 show ?thesis by simp
  next
    assume "child' \<noteq> child \<and> link_child b h1 node p child' = Inr (h', node')"
    with link_child_frame have "length h1 \<le> length h'" "\<forall>i<b. i < length h1 \<longrightarrow> h' ! i = h1 ! i"
      by blast+
    with 1 show ?thesis by auto
  qed
qed

subsection \<open>Paths of old and of new objects\<close>

lemma olds_append: "olds b h ps node \<Longrightarrow> b \<le> length h \<Longrightarrow> olds b (h @ cs) ps node"
  by (induction ps arbitrary: node) (auto simp: nth_append split: hval.splits)

lemma olds_frame:
  "olds b h ps node \<Longrightarrow> \<forall>i<b. h' ! i = h ! i \<Longrightarrow> olds b h' ps node"
  by (induction ps arbitrary: node) (auto split: hval.splits)

lemma news_frame:
  "news b u h ps node \<Longrightarrow> \<forall>i<u. b \<le> i \<longrightarrow> h' ! i = h ! i \<Longrightarrow> news b u h' ps node"
proof (induction ps arbitrary: node u)
  case Nil
  then show ?case by (auto split: hval.splits)
next
  case (Cons p ps)
  from Cons.prems(1) obtain a where a: "node = HRef a" "b \<le> a" "a < u" "draftable (h ! a)"
    "news b a h ps (cell_get (h ! a) p)"
    by (auto split: hval.splits)
  from Cons.prems(2) a have "\<forall>i<a. b \<le> i \<longrightarrow> h' ! i = h ! i" by auto
  from Cons.IH [OF a(5) this] Cons.prems(2) a show ?case by simp
qed

lemma news_mono: "news b u h ps node \<Longrightarrow> u \<le> u' \<Longrightarrow> news b u' h ps node"
  by (cases ps) (auto split: hval.splits)

lemma news_ref: "news b u h ps node \<Longrightarrow> \<exists>a. node = HRef a \<and> b \<le> a \<and> a < u \<and> draftable (h ! a)"
  by (cases ps) (auto split: hval.splits)

lemma olds_ref: "olds b h ps node \<Longrightarrow> \<exists>a. node = HRef a \<and> a < b \<and> draftable (h ! a)"
  by (cases ps) (auto split: hval.splits)

lemma olds_plain: "olds b h ps node \<Longrightarrow> b \<le> length h \<Longrightarrow> plain_path h ps node"
  by (induction ps arbitrary: node) (auto split: hval.splits)

lemma news_plain: "news b u h ps node \<Longrightarrow> u \<le> length h \<Longrightarrow> plain_path h ps node"
proof (induction ps arbitrary: node u)
  case Nil
  then show ?case by (auto split: hval.splits)
next
  case (Cons p ps)
  from Cons.prems(1) obtain a where a: "node = HRef a" "b \<le> a" "a < u" "draftable (h ! a)"
    "news b a h ps (cell_get (h ! a) p)"
    by (auto split: hval.splits)
  with Cons.prems(2) have "a \<le> length h" by simp
  from Cons.IH [OF a(5) this] a Cons.prems(2) show ?case by simp
qed

lemma assign_s_needs_ref:
  "\<forall>a. node \<noteq> HRef a \<Longrightarrow> \<exists>e. assign_s b ps k x h node = Inl e"
proof (induction ps arbitrary: node)
  case Nil
  then show ?case by (cases node) auto
next
  case (Cons p ps)
  from Cons.prems have nr: "\<not> is_raw h node" by (cases node) auto
  show ?case
  proof (cases "read_prop h node p")
    case (Inl e)
    with nr show ?thesis by simp
  next
    case (Inr child)
    with Cons.prems have "\<forall>a. child \<noteq> HRef a"
      by (cases node) (auto split: if_splits option.splits)
    from Cons.IH [OF this] Inr nr show ?thesis by auto
  qed
qed

lemma assign_s_olds:
  "assign_s b ps k x h node = Inr r \<Longrightarrow> length h \<le> b \<Longrightarrow> plain_path h ps node \<Longrightarrow>
   olds b h ps node"
proof (induction ps arbitrary: node r)
  case Nil
  then show ?case by (cases node) (auto split: if_splits)
next
  case (Cons p ps)
  from Cons.prems(1) assign_s_needs_ref [of node b "p # ps" k x h] obtain a where a: "node = HRef a"
    by fastforce
  with Cons.prems(1,3) obtain r1 where
    "a < length h" "draftable (h ! a)" "assign_s b ps k x h (cell_get (h ! a) p) = Inr r1"
    "plain_path h ps (cell_get (h ! a) p)"
    by (auto split: if_splits sum.splits)
  with Cons.IH [OF this(3) Cons.prems(2) this(4)] a Cons.prems(2) show ?case by simp
qed

lemma news_levels:
  "news b u h ps node \<Longrightarrow> u \<le> length h \<Longrightarrow> n \<le> length ps \<Longrightarrow>
   \<exists>a. walk_s h (take n ps) node = Inr (HRef a) \<and> b \<le> a \<and> a < u"
proof (induction ps arbitrary: n node u)
  case Nil
  then show ?case by (auto split: hval.splits)
next
  case (Cons p ps)
  from Cons.prems(1) obtain a where a: "node = HRef a" "b \<le> a" "a < u"
    "news b a h ps (cell_get (h ! a) p)"
    by (auto split: hval.splits)
  show ?case
  proof (cases n)
    case 0
    with a show ?thesis by simp
  next
    case (Suc m)
    with Cons.prems(3) have "m \<le> length ps" by simp
    from Cons.IH [OF a(4) _ this] a Cons.prems(2) obtain a' where
      "walk_s h (take m ps) (cell_get (h ! a) p) = Inr (HRef a')" "b \<le> a'" "a' < a"
      by auto
    with a Suc Cons.prems(2) show ?thesis by auto
  qed
qed

lemma olds_levels:
  "olds b h ps node \<Longrightarrow> b \<le> length h \<Longrightarrow> n \<le> length ps \<Longrightarrow>
   \<exists>a. walk_s h (take n ps) node = Inr (HRef a) \<and> a < b"
proof (induction ps arbitrary: n node)
  case Nil
  then show ?case by (auto split: hval.splits)
next
  case (Cons p ps)
  from Cons.prems(1) obtain a where a: "node = HRef a" "a < b"
    "olds b h ps (cell_get (h ! a) p)"
    by (auto split: hval.splits)
  show ?case
  proof (cases n)
    case 0
    with a show ?thesis by simp
  next
    case (Suc m)
    with Cons.prems(3) have "m \<le> length ps" by simp
    from Cons.IH [OF a(3) Cons.prems(2) this] obtain a' where
      "walk_s h (take m ps) (cell_get (h ! a) p) = Inr (HRef a')" "a' < b"
      by auto
    with a Suc Cons.prems(2) show ?thesis by auto
  qed
qed

subsection \<open>The first change copies the path, later changes write to the copies\<close>

lemma first_change:
  assumes "olds b h ps node" "b \<le> length h" "assign_s b ps k x h node = Inr (h', node')"
  shows "(h' = h \<and> node' = node
          \<and> (\<exists>a. walk_s h ps node = Inr (HRef a) \<and> a < b \<and> same_value (h ! a) k x))
       \<or> news b (length h') h' ps node'"
  using assms
proof (induction ps arbitrary: node h' node')
  case Nil
  from Nil.prems(1) obtain a where a: "node = HRef a" "a < b" "draftable (h ! a)"
    by (auto split: hval.splits)
  with Nil.prems show ?case
    by (auto simp: write_cell_def cell_set_draftable split: if_splits sum.splits)
next
  case (Cons p ps)
  from Cons.prems(1) obtain a where a: "node = HRef a" "a < b" "draftable (h ! a)"
    "olds b h ps (cell_get (h ! a) p)"
    by (auto split: hval.splits)
  let ?child = "cell_get (h ! a) p"
  from a Cons.prems(2) have al: "a < length h" by simp
  with a Cons.prems(3) obtain h1 child' where
    as: "assign_s b ps k x h ?child = Inr (h1, child')" and
    r: "(child' = ?child \<and> h' = h1 \<and> node' = node)
        \<or> (child' \<noteq> ?child \<and> link_child b h1 node p child' = Inr (h', node'))"
    by (auto split: sum.splits if_splits)
  from Cons.IH [OF a(4) Cons.prems(2) as]
  consider (same) "h1 = h" "child' = ?child"
      "\<exists>a'. walk_s h ps ?child = Inr (HRef a') \<and> a' < b \<and> same_value (h ! a') k x"
    | (new) "news b (length h1) h1 ps child'"
    by blast
  then show ?case
  proof cases
    case same
    with r a al show ?thesis by auto
  next
    case new
    from news_ref [OF new] obtain a' where a': "child' = HRef a'" "b \<le> a'" by blast
    from olds_ref [OF a(4)] obtain c0 where c0: "?child = HRef c0" "c0 < b" by blast
    with a' have ne: "child' \<noteq> ?child" by auto
    from olds_plain [OF a(4) Cons.prems(2)] have "plain_path h ps ?child" .
    from assign_s_frame [OF as this] al a have f: "length h \<le> length h1" "h1 ! a = h ! a"
      by auto
    from c0 cell_link_ref obtain c'' where c'': "cell_link (h ! a) p child' = Inr c''" by blast
    with r ne a al f have res: "h' = h1 @ [c'']" "node' = HRef (length h1)"
      by (auto simp: write_cell_def)
    have "news b (length h1) (h1 @ [c'']) ps child'"
      using news_frame [OF new, of "h1 @ [c'']"] by (simp add: nth_append)
    moreover have "cell_get c'' p = child'" using cell_get_link [OF c''] .
    moreover have "draftable c''" using cell_link_draftable [OF c''] a by simp
    ultimately show ?thesis
      using res f Cons.prems(2) by (simp add: nth_append)
  qed
qed

lemma later_change:
  assumes "news b u h ps node" "u \<le> length h" "assign_s b ps k x h node = Inr (h', node')"
  shows "node' = node \<and> length h' = length h
       \<and> (\<forall>i<length h. i < b \<or> u \<le> i \<longrightarrow> h' ! i = h ! i)
       \<and> news b u h' ps node"
  using assms
proof (induction ps arbitrary: node u h' node')
  case Nil
  from Nil.prems(1) obtain a where a: "node = HRef a" "b \<le> a" "a < u" "draftable (h ! a)"
    by (auto split: hval.splits)
  with Nil.prems show ?case
    by (auto simp: write_cell_def cell_set_draftable split: if_splits sum.splits)
next
  case (Cons p ps)
  from Cons.prems(1) obtain a where a: "node = HRef a" "b \<le> a" "a < u" "draftable (h ! a)"
    "news b a h ps (cell_get (h ! a) p)"
    by (auto split: hval.splits)
  let ?child = "cell_get (h ! a) p"
  from a Cons.prems(2) have al: "a < length h" "a \<le> length h" by simp_all
  with a Cons.prems(3) obtain h1 child' where
    as: "assign_s b ps k x h ?child = Inr (h1, child')" and
    r: "(child' = ?child \<and> h' = h1 \<and> node' = node)
        \<or> (child' \<noteq> ?child \<and> link_child b h1 node p child' = Inr (h', node'))"
    by (auto split: sum.splits if_splits)
  from Cons.IH [OF a(5) al(2) as] have ih: "child' = ?child" "length h1 = length h"
    "\<forall>i<length h. i < b \<or> a \<le> i \<longrightarrow> h1 ! i = h ! i" "news b a h1 ps ?child"
    by auto
  with r have res: "h' = h1" "node' = node" by auto
  from ih al have "h1 ! a = h ! a" by simp
  with ih a have "news b u h1 (p # ps) node" by simp
  with res ih a show ?case by auto
qed

subsection \<open>The handlers on the store\<close>

lemma walk_s_single: "walk_s h [k] v = read_prop h v k"
  by (cases "read_prop h v k") auto

lemma getNestedState_s_walk: "getNestedState_s sel h v = walk_s h (js_split CHR ''.'' sel) v"
proof (cases "CHR ''.'' \<in> set sel")
  case True
  then show ?thesis by (simp add: getNestedState_s_def Let_def js_split_length)
next
  case False
  then show ?thesis
    by (simp add: getNestedState_s_def Let_def js_split_no_sep walk_s_single del: walk_s.simps)
qed

lemma getNestedState_draft_s_walk:
  "getNestedState_draft_s sel h d =
     (case walk_s h (js_split CHR ''.'' sel) d of
        Inl e \<Rightarrow> Inl e
      | Inr _ \<Rightarrow> Inr (js_split CHR ''.'' sel))"
proof (cases "CHR ''.'' \<in> set sel")
  case True
  then show ?thesis
    by (simp add: getNestedState_draft_s_def Let_def getNestedState_s_walk js_split_length)
next
  case False
  then show ?thesis
    by (simp add: getNestedState_draft_s_def Let_def getNestedState_s_walk js_split_no_sep
          del: walk_s.simps split: sum.splits)
qed

lemma plain_root: "plain_path h (js_split CHR ''.'' p) s \<Longrightarrow> \<not> is_raw h s"
  by (cases "js_split CHR ''.'' p") auto

text \<open>While a recipe runs, the path is the old one or a path of copies: never an instance.\<close>

lemma state_plain:
  assumes o: "olds (length h0) h0 ps s"
    and d: "(h = h0 \<and> root = s) \<or> news (length h0) (length h) h ps root"
  shows "plain_path (h @ cs) ps root"
  using d
proof
  assume "h = h0 \<and> root = s"
  with o olds_append [of "length h0" h0 ps s cs] olds_plain [of "length h0" "h0 @ cs" ps s]
  show ?thesis by simp
next
  assume n: "news (length h0) (length h) h ps root"
  have "news (length h0) (length h) (h @ cs) ps root"
    using news_frame [OF n, of "h @ cs"] by (simp add: nth_append)
  from news_plain [OF this] show ?thesis by simp
qed

text \<open>Assigning a new array is always a change.\<close>

lemma new_array_changes:
  assumes ok: "store_ok h0"
    and o: "olds (length h0) h0 ps s"
    and d: "(h = h0 \<and> root = s) \<or> news (length h0) (length h) h ps root"
    and a: "assign_s (length h0) ps k (HRef (length h)) (h @ [c]) root = Inr (h', root')"
  shows "news (length h0) (length h') h' ps root'"
  using d
proof
  assume u: "h = h0 \<and> root = s"
  with o have "olds (length h0) (h @ [c]) ps root" by (simp add: olds_append)
  from first_change [OF this _ a] u
  consider (same) a' where "walk_s (h0 @ [c]) ps s = Inr (HRef a')" "a' < length h0"
      "same_value ((h0 @ [c]) ! a') k (HRef (length h0))"
    | (new) "news (length h0) (length h') h' ps root'"
    by auto
  then show ?thesis
  proof cases
    case same
    then have "cell_get (h0 ! a') k = HRef (length h0)"
      by (simp add: same_value_def nth_append)
    with store_ok_get [OF ok same(2)] show ?thesis by blast
  next
    case new
    then show ?thesis .
  qed
next
  assume n: "news (length h0) (length h) h ps root"
  have "news (length h0) (length h) (h @ [c]) ps root"
    using news_frame [OF n, of "h @ [c]"] by (simp add: nth_append)
  from later_change [OF this _ a] have "length h' = length (h @ [c])"
    "news (length h0) (length h) h' ps root" "root' = root"
    by auto
  then show ?thesis using news_mono [of "length h0" "length h" h' ps root "length h'"] by simp
qed

lemma assign_after:
  assumes o: "olds (length h0) h0 ps s"
    and d: "(h = h0 \<and> root = s) \<or> news (length h0) (length h) h ps root"
    and a: "assign_s (length h0) ps k x h root = Inr (h', root')"
  shows "(h' = h0 \<and> root' = s \<and> h = h0
          \<and> (\<exists>a. walk_s h0 ps s = Inr (HRef a) \<and> a < length h0 \<and> same_value (h0 ! a) k x))
       \<or> news (length h0) (length h') h' ps root'"
  using d
proof
  assume u: "h = h0 \<and> root = s"
  with first_change [OF o _ a [unfolded u [THEN conjunct1] u [THEN conjunct2]]]
  show ?thesis by auto
next
  assume n: "news (length h0) (length h) h ps root"
  from later_change [OF n _ a] show ?thesis by auto
qed

lemma assign_keeps:
  assumes o: "olds (length h0) h0 ps s"
    and d: "(h = h0 \<and> root = s) \<or> news (length h0) (length h) h ps root"
    and a: "assign_s (length h0) ps k x (h @ cs) root = Inr (h', root')"
    and f: "length h0 \<le> length h" "\<forall>i<length h0. h ! i = h0 ! i"
  shows "length h0 \<le> length h' \<and> (\<forall>i<length h0. h' ! i = h0 ! i)"
  using assign_s_frame [OF a state_plain [OF o d]] f by (auto simp: nth_append)

lemma onLoad_s_result:
  assumes ok: "store_ok h" and pl: "plain_path h (js_split CHR ''.'' p) s"
    and r: "reducer (onLoad_s g p) (h, s) a = Inr (h', s')"
  shows "olds (length h) h (js_split CHR ''.'' p) s
       \<and> news (length h) (length h') h' (js_split CHR ''.'' p) s'
       \<and> length h \<le> length h' \<and> (\<forall>i<length h. h' ! i = h ! i)"
proof -
  let ?ps = "js_split CHR ''.'' p"
  from r obtain h1 r1 where
    1: "assign_s (length h) ?ps ''loading'' (HBool True) h s = Inr (h1, r1)" and
    2: "assign_s (length h) ?ps ''errors'' (HRef (length h1)) (h1 @ [CArr []]) r1 = Inr (h', s')"
    by (auto simp: onLoad_s_def on_def produce_s_def bindE_def alloc_def
        getNestedState_draft_s_walk split: sum.splits if_splits)
  from assign_s_olds [OF 1 _ pl] have o: "olds (length h) h ?ps s" by simp
  from assign_after [OF o _ 1]
  have d: "(h1 = h \<and> r1 = s) \<or> news (length h) (length h1) h1 ?ps r1" by auto
  from new_array_changes [OF ok o d 2] have n: "news (length h) (length h') h' ?ps s'" .
  from assign_s_frame [OF 1 pl]
  have f1: "length h \<le> length h1" "\<forall>i<length h. h1 ! i = h ! i" by auto
  from assign_keeps [OF o d 2 f1]
  have "length h \<le> length h'" "\<forall>i<length h. h' ! i = h ! i" by auto
  with o n show ?thesis by simp
qed


lemma onLoadSuccess_s_result:
  assumes ok: "store_ok h" and pl: "plain_path h (js_split CHR ''.'' p) s"
    and r: "reducer (onLoadSuccess_s g p n None) (h, s) a = Inr (h', s')"
  shows "olds (length h) h (js_split CHR ''.'' p) s
       \<and> news (length h) (length h') h' (js_split CHR ''.'' p) s'
       \<and> length h \<le> length h' \<and> (\<forall>i<length h. h' ! i = h ! i)"
proof -
  let ?ps = "js_split CHR ''.'' p"
  from r obtain h1 r1 h2 r2 where
    1: "assign_s (length h) ?ps n (action_prop_s a ''data'') h s = Inr (h1, r1)" and
    2: "assign_s (length h) ?ps ''errors'' (HRef (length h1)) (h1 @ [CArr []]) r1 = Inr (h2, r2)" and
    3: "assign_s (length h) ?ps ''loading'' (HBool False) h2 r2 = Inr (h', s')"
    by (auto simp: onLoadSuccess_s_def on_def produce_s_def bindE_def alloc_def assign_m_def
        getNestedState_draft_s_walk split: sum.splits if_splits)
  from assign_s_olds [OF 1 _ pl] have o: "olds (length h) h ?ps s" by simp
  from assign_after [OF o _ 1]
  have d: "(h1 = h \<and> r1 = s) \<or> news (length h) (length h1) h1 ?ps r1" by auto
  from new_array_changes [OF ok o d 2] have n2: "news (length h) (length h2) h2 ?ps r2" .
  from assign_after [OF o _ 3] this have n: "news (length h) (length h') h' ?ps s'"
    using news_ref olds_ref [OF o] by fastforce
  from assign_s_frame [OF 1 pl]
  have f1: "length h \<le> length h1" "\<forall>i<length h. h1 ! i = h ! i" by auto
  from assign_keeps [OF o d 2 f1]
  have f2: "length h \<le> length h2" "\<forall>i<length h. h2 ! i = h ! i" by auto
  have "assign_s (length h) ?ps ''loading'' (HBool False) (h2 @ []) r2 = Inr (h', s')"
    using 3 by simp
  from assign_keeps [OF o _ this f2] n2
  have "length h \<le> length h'" "\<forall>i<length h. h' ! i = h ! i" by auto
  with o n show ?thesis by simp
qed

lemma onReset_s_result:
  assumes ok: "store_ok h" and pl: "plain_path h (js_split CHR ''.'' p) s"
    and r: "reducer (onReset_s g p n i) (h, s) a = Inr (h', s')"
  shows "olds (length h) h (js_split CHR ''.'' p) s
       \<and> news (length h) (length h') h' (js_split CHR ''.'' p) s'
       \<and> length h \<le> length h' \<and> (\<forall>i<length h. h' ! i = h ! i)"
proof -
  let ?ps = "js_split CHR ''.'' p"
  from r obtain h1 r1 h2 r2 where
    1: "assign_s (length h) ?ps n i h s = Inr (h1, r1)" and
    2: "assign_s (length h) ?ps ''errors'' (HRef (length h1)) (h1 @ [CArr []]) r1 = Inr (h2, r2)" and
    3: "assign_s (length h) ?ps ''loading'' (HBool False) h2 r2 = Inr (h', s')"
    by (auto simp: onReset_s_def on_def produce_s_def bindE_def alloc_def
        getNestedState_draft_s_walk split: sum.splits if_splits)
  from assign_s_olds [OF 1 _ pl] have o: "olds (length h) h ?ps s" by simp
  from assign_after [OF o _ 1]
  have d: "(h1 = h \<and> r1 = s) \<or> news (length h) (length h1) h1 ?ps r1" by auto
  from new_array_changes [OF ok o d 2] have n2: "news (length h) (length h2) h2 ?ps r2" .
  from assign_after [OF o _ 3] this have n: "news (length h) (length h') h' ?ps s'"
    using news_ref olds_ref [OF o] by fastforce
  from assign_s_frame [OF 1 pl]
  have f1: "length h \<le> length h1" "\<forall>i<length h. h1 ! i = h ! i" by auto
  from assign_keeps [OF o d 2 f1]
  have f2: "length h \<le> length h2" "\<forall>i<length h. h2 ! i = h ! i" by auto
  have "assign_s (length h) ?ps ''loading'' (HBool False) (h2 @ []) r2 = Inr (h', s')"
    using 3 by simp
  from assign_keeps [OF o _ this f2] n2
  have "length h \<le> length h'" "\<forall>i<length h. h' ! i = h ! i" by auto
  with o n show ?thesis by simp
qed

lemma onLoadFailure_s_result:
  assumes pl: "plain_path h (js_split CHR ''.'' p) s"
    and r: "reducer (onLoadFailure_s g p) (h, s) a = Inr (h', s')"
  shows "olds (length h) h (js_split CHR ''.'' p) s
       \<and> (news (length h) (length h') h' (js_split CHR ''.'' p) s'
          \<or> (h' = h \<and> s' = s
             \<and> (\<exists>c. walk_s h (js_split CHR ''.'' p) s = Inr (HRef c) \<and> c < length h
                  \<and> same_value (h ! c) ''loading'' (HBool False)
                  \<and> same_value (h ! c) ''errors'' (action_prop_s a ''errors''))))
       \<and> length h \<le> length h' \<and> (\<forall>i<length h. h' ! i = h ! i)"
proof -
  let ?ps = "js_split CHR ''.'' p"
  from r obtain h1 r1 where
    1: "assign_s (length h) ?ps ''loading'' (HBool False) h s = Inr (h1, r1)" and
    2: "assign_s (length h) ?ps ''errors'' (action_prop_s a ''errors'') h1 r1 = Inr (h', s')"
    by (auto simp: onLoadFailure_s_def on_def produce_s_def bindE_def
        getNestedState_draft_s_walk split: sum.splits if_splits)
  from assign_s_olds [OF 1 _ pl] have o: "olds (length h) h ?ps s" by simp
  from assign_after [OF o _ 1]
  consider (same) "h1 = h" "r1 = s" "\<exists>c. walk_s h ?ps s = Inr (HRef c) \<and> c < length h
        \<and> same_value (h ! c) ''loading'' (HBool False)"
    | (new) "news (length h) (length h1) h1 ?ps r1"
    by auto
  then have "news (length h) (length h') h' ?ps s'
     \<or> (h' = h \<and> s' = s
         \<and> (\<exists>c. walk_s h ?ps s = Inr (HRef c) \<and> c < length h
              \<and> same_value (h ! c) ''loading'' (HBool False)
              \<and> same_value (h ! c) ''errors'' (action_prop_s a ''errors'')))"
  proof cases
    case same
    from assign_after [OF o _ 2 [unfolded same(1,2)]] same(3) show ?thesis by auto
  next
    case new
    from assign_after [OF o _ 2] new show ?thesis
      using news_ref olds_ref [OF o] by fastforce
  qed
  moreover from assign_after [OF o _ 1]
  have d: "(h1 = h \<and> r1 = s) \<or> news (length h) (length h1) h1 ?ps r1" by auto
  from assign_s_frame [OF 1 pl]
  have f1: "length h \<le> length h1" "\<forall>i<length h. h1 ! i = h ! i" by auto
  have "assign_s (length h) ?ps ''errors'' (action_prop_s a ''errors'') (h1 @ []) r1 = Inr (h', s')"
    using 2 by simp
  from assign_keeps [OF o d this f1]
  have "length h \<le> length h'" "\<forall>i<length h. h' ! i = h ! i" by auto
  ultimately show ?thesis using o by simp
qed

lemma assign_s_same:
  "walk_s h ps node = Inr (HRef c) \<Longrightarrow> c < length h \<Longrightarrow> same_value (h ! c) k x \<Longrightarrow>
   k = ''loading'' \<or> k = ''errors'' \<Longrightarrow> plain_path h ps node \<Longrightarrow>
   assign_s b ps k x h node = Inr (h, node)"
proof (induction ps arbitrary: node)
  case Nil
  then show ?case by (cases "h ! c") (auto simp: same_value_def)
next
  case (Cons p ps)
  then show ?case by (auto split: sum.splits)
qed

lemma onLoadFailure_s_same:
  assumes "already_failed p h s a" and pl: "plain_path h (js_split CHR ''.'' p) s"
  shows "reducer (onLoadFailure_s g p) (h, s) a = Inr (h, s)"
proof -
  from assms obtain c where w: "walk_s h (js_split CHR ''.'' p) s = Inr (HRef c)"
    and c: "c < length h"
    and l: "same_value (h ! c) ''loading'' (HBool False)"
    and e: "same_value (h ! c) ''errors'' (action_prop_s a ''errors'')"
    by (auto simp: already_failed_def getNestedState_s_walk split: sum.splits hval.splits)
  from assign_s_same [OF w c e _ pl] assign_s_same [OF w c l _ pl] w plain_root [OF pl]
  show ?thesis
    by (simp add: onLoadFailure_s_def on_def produce_s_def bindE_def getNestedState_draft_s_walk)
qed

lemma new_levels_differs: "new_levels h s h' s' ps \<Longrightarrow> s' \<noteq> s"
  unfolding new_levels_def by (drule spec [of _ 0]) auto

lemma read_prop_unchanged:
  "unchanged h h' \<Longrightarrow> \<forall>a. v = HRef a \<longrightarrow> a < length h \<Longrightarrow> read_prop h' v k = read_prop h v k"
  by (cases v) (auto simp: unchanged_def)

lemma read_prop_closed:
  assumes "store_ok h" "\<forall>a. v = HRef a \<longrightarrow> a < length h" "read_prop h v k = Inr w"
  shows "\<forall>a. w = HRef a \<longrightarrow> a < length h"
proof (cases v)
  case (HRef a)
  with assms show ?thesis by (auto dest: store_ok_get split: if_splits)
qed (use assms in \<open>auto split: if_splits option.splits\<close>)

lemma walk_s_unchanged:
  "store_ok h \<Longrightarrow> unchanged h h' \<Longrightarrow> \<forall>a. v = HRef a \<longrightarrow> a < length h \<Longrightarrow>
   walk_s h' q v = walk_s h q v"
proof (induction q arbitrary: v)
  case Nil
  then show ?case by simp
next
  case (Cons k q)
  show ?case
  proof (cases "read_prop h v k")
    case (Inl e)
    with read_prop_unchanged [OF Cons.prems(2,3), of k] show ?thesis by simp
  next
    case (Inr w)
    from read_prop_closed [OF Cons.prems(1,3) Inr]
    have "walk_s h' q w = walk_s h q w" by (rule Cons.IH [OF Cons.prems(1,2)])
    with Inr read_prop_unchanged [OF Cons.prems(2,3), of k] show ?thesis by simp
  qed
qed

lemma olds_reads:
  assumes "store_ok h" "unchanged h h'" "olds (length h) h ps s"
  shows "walk_s h' q s = walk_s h q s"
  using walk_s_unchanged [OF assms(1,2)] olds_ref [OF assms(3)] by auto

lemma onActionGroup_s_handlers:
  "snd (onActionGroup_s g sel st0 rf) = Inr hs \<longleftrightarrow>
     (\<exists>i. getNestedState_s sel (fst st0) (snd st0) = Inr i
        \<and> hs = [onLoad_s g (pathWithoutProperty (snd (getNestedStatePathName sel))),
                onLoadSuccess_s g (pathWithoutProperty (snd (getNestedStatePathName sel)))
                  (propertyName (snd (getNestedStatePathName sel))) rf,
                onLoadFailure_s g (pathWithoutProperty (snd (getNestedStatePathName sel))),
                onReset_s g (pathWithoutProperty (snd (getNestedStatePathName sel)))
                  (propertyName (snd (getNestedStatePathName sel))) i])"
  by (cases "getNestedStatePathName sel") (auto simp: onActionGroup_s_def split: sum.splits)

lemma new_levelsI:
  assumes "olds (length h) h ps s" "news (length h) (length h') h' ps s'"
  shows "new_levels h s h' s' ps"
  unfolding new_levels_def
proof (intro allI impI)
  fix n assume n: "n \<le> length ps"
  from olds_levels [OF assms(1) _ n] obtain a where
    "walk_s h (take n ps) s = Inr (HRef a)" "a < length h" by auto
  moreover from news_levels [OF assms(2) _ n] obtain a' where
    "walk_s h' (take n ps) s' = Inr (HRef a')" "length h \<le> a'" "a' < length h'" by auto
  ultimately show "\<exists>a a'. walk_s h (take n ps) s = Inr (HRef a) \<and> a < length h
        \<and> walk_s h' (take n ps) s' = Inr (HRef a') \<and> length h \<le> a' \<and> a' < length h'"
    by blast
qed

section \<open>Identifiers\<close>

lemma bracket_cancel:
  "CHR '']'' \<notin> set s1 \<Longrightarrow> CHR '']'' \<notin> set s2 \<Longrightarrow>
   s1 @ CHR '']'' # r1 = s2 @ CHR '']'' # r2 \<Longrightarrow> s1 = s2 \<and> r1 = r2"
proof (induction s1 arbitrary: s2)
  case Nil
  then show ?case by (cases s2) auto
next
  case (Cons x xs)
  then show ?case by (cases s2) auto
qed

lemma bracketed_eq_iff:
  assumes "CHR '']'' \<notin> set s1" "CHR '']'' \<notin> set s2"
  shows "(''['' @ s1 @ ''] '' @ a1 = ''['' @ s2 @ ''] '' @ a2) = (s1 = s2 \<and> a1 = a2)"
  using bracket_cancel [OF assms, of "CHR '' '' # a1" "CHR '' '' # a2"] by auto

lemma api_bracketed: "''[API] '' @ x = ''['' @ ''API'' @ ''] '' @ x"
  by simp

lemma last_Success: "last (p @ a @ '' Success'') = CHR ''s''" by simp
lemma last_Failure: "last (p @ a @ '' Failure'') = CHR ''e''" by simp
lemma last_Reset: "last (p @ a @ '' Reset'') = CHR ''t''" by simp

lemma Success_neq_Failure: "p @ a @ '' Success'' \<noteq> q @ b @ '' Failure''"
proof
  assume "p @ a @ '' Success'' = q @ b @ '' Failure''"
  then have "last (p @ a @ '' Success'') = last (q @ b @ '' Failure'')" by simp
  then show False by (simp only: last_Success last_Failure) simp
qed

lemma Success_neq_Reset: "p @ a @ '' Success'' \<noteq> q @ b @ '' Reset''"
proof
  assume "p @ a @ '' Success'' = q @ b @ '' Reset''"
  then have "last (p @ a @ '' Success'') = last (q @ b @ '' Reset'')" by simp
  then show False by (simp only: last_Success last_Reset) simp
qed

lemma Failure_neq_Reset: "p @ a @ '' Failure'' \<noteq> q @ b @ '' Reset''"
proof
  assume "p @ a @ '' Failure'' = q @ b @ '' Reset''"
  then have "last (p @ a @ '' Failure'') = last (q @ b @ '' Reset'')" by simp
  then show False by (simp only: last_Failure last_Reset) simp
qed

text \<open>
  C8. For every configuration the four identifiers are
  \<^verbatim>\<open>"[" + source + "] " + action\<close> for load,
  \<^verbatim>\<open>"[API] " + action + " Success"\<close> for loadSuccess,
  \<^verbatim>\<open>"[API] " + action + " Failure"\<close> for loadFailure and
  \<^verbatim>\<open>"[" + source + "] " + action + " Reset"\<close> for reset; the configuration
  with source "Todo" and action "Load todo list" yields "[Todo] Load todo list",
  "[API] Load todo list Success", "[API] Load todo list Failure" and
  "[Todo] Load todo list Reset".
\<close>

theorem createDataFlowActions_identifiers:
  "actionType (load (createDataFlowActions \<lparr>source = s, action = a\<rparr>)) = ''['' @ s @ ''] '' @ a
   \<and> actionType (loadSuccess (createDataFlowActions \<lparr>source = s, action = a\<rparr>))
       = ''[API] '' @ a @ '' Success''
   \<and> actionType (loadFailure (createDataFlowActions \<lparr>source = s, action = a\<rparr>))
       = ''[API] '' @ a @ '' Failure''
   \<and> actionType (reset (createDataFlowActions \<lparr>source = s, action = a\<rparr>))
       = ''['' @ s @ ''] '' @ a @ '' Reset''
   \<and> identifiers (createDataFlowActions \<lparr>source = ''Todo'', action = ''Load todo list''\<rparr>)
       = [''[Todo] Load todo list'', ''[API] Load todo list Success'',
          ''[API] Load todo list Failure'', ''[Todo] Load todo list Reset'']"
  by (simp add: createDataFlowActions_def createAction_def identifiers_def)

text \<open>
  C7, counterexample. Two configurations that differ only in their source both yield
  the success identifier "[API] Load Success": the identifier sets are not disjoint.
\<close>

theorem identifiers_collide:
  "\<lparr>source = ''Todo'', action = ''Load''\<rparr> \<noteq> \<lparr>source = ''User'', action = ''Load''\<rparr>
   \<and> ''Todo'' \<noteq> [] \<and> ''User'' \<noteq> [] \<and> ''Load'' \<noteq> []
   \<and> ''[API] Load Success''
       \<in> set (identifiers (createDataFlowActions \<lparr>source = ''Todo'', action = ''Load''\<rparr>))
         \<inter> set (identifiers (createDataFlowActions \<lparr>source = ''User'', action = ''Load''\<rparr>))"
  by (simp add: createDataFlowActions_def createAction_def identifiers_def)

text \<open>
  C7, as amended. For two configurations with different action strings, whose
  sources contain no closing bracket and are not "API", and where neither action is
  the other followed by " Reset", the two sets of four identifiers are disjoint.
\<close>

theorem identifiers_disjoint:
  assumes act: "action c1 \<noteq> action c2"
    and b1: "CHR '']'' \<notin> set (source c1)" and b2: "CHR '']'' \<notin> set (source c2)"
    and api1: "source c1 \<noteq> ''API''" and api2: "source c2 \<noteq> ''API''"
    and r1: "action c1 \<noteq> action c2 @ '' Reset''" and r2: "action c2 \<noteq> action c1 @ '' Reset''"
  shows "set (identifiers (createDataFlowActions c1))
           \<inter> set (identifiers (createDataFlowActions c2)) = {}"
proof -
  have api: "CHR '']'' \<notin> set ''API''" by simp
  note br = bracketed_eq_iff [OF b1 b2] bracketed_eq_iff [OF b2 b1]
    bracketed_eq_iff [OF b1 api] bracketed_eq_iff [OF api b1]
    bracketed_eq_iff [OF b2 api] bracketed_eq_iff [OF api b2]
  have ll: "''['' @ source c1 @ ''] '' @ action c1 \<noteq> ''['' @ source c2 @ ''] '' @ action c2"
    using act by (simp only: br) simp
  have lr: "''['' @ source c1 @ ''] '' @ action c1
              \<noteq> ''['' @ source c2 @ ''] '' @ action c2 @ '' Reset''"
    using r1 by (simp only: br) simp
  have rl: "''['' @ source c1 @ ''] '' @ action c1 @ '' Reset''
              \<noteq> ''['' @ source c2 @ ''] '' @ action c2"
    using r2 by (simp only: br) auto
  have rr: "''['' @ source c1 @ ''] '' @ action c1 @ '' Reset''
              \<noteq> ''['' @ source c2 @ ''] '' @ action c2 @ '' Reset''"
    using act by (simp only: br) simp
  have ls: "''['' @ source c1 @ ''] '' @ x \<noteq> ''[API] '' @ y" for x y
    using api1 by (simp only: api_bracketed br) simp
  have sl: "''[API] '' @ y \<noteq> ''['' @ source c2 @ ''] '' @ x" for x y
    using api2 by (simp only: api_bracketed br) auto
  have ss: "''[API] '' @ action c1 @ t \<noteq> ''[API] '' @ action c2 @ t" for t
    using act by simp
  have sf: "''[API] '' @ a @ '' Success'' \<noteq> ''[API] '' @ b @ '' Failure''" for a b
    using Success_neq_Failure [of "''[API] ''" a "''[API] ''" b] .
  show ?thesis
    unfolding identifiers_def createDataFlowActions_def createAction_def
    using ll lr rl rr ls sl ss sf sf [symmetric]
    by (simp del: append.simps append_assoc add: disjoint_iff)
qed

theorem identifiers_disjoint_witness:
  "set (identifiers (createDataFlowActions \<lparr>source = ''Todo'', action = ''Load todo list''\<rparr>))
     \<inter> set (identifiers (createDataFlowActions \<lparr>source = ''User'', action = ''Load users''\<rparr>))
   = {}"
  using identifiers_disjoint
    [of "\<lparr>source = ''Todo'', action = ''Load todo list''\<rparr>"
        "\<lparr>source = ''User'', action = ''Load users''\<rparr>"]
  by simp

section \<open>Path decomposition\<close>

text \<open>
  C5. For a path of one segment the property name is that segment and the path
  without property should be that same segment. The code at the path "data": the
  property name is "data", but the path without property is the empty string, since
  joining no segments gives a string and the fallback to the path is never taken.
\<close>

theorem single_segment_decomposition:
  "snd (getNestedStatePathName ''data'')
     = \<lparr>propertyName = ''data'', parentName = ''data'', pathWithoutProperty = ''''\<rparr>
   \<and> pathWithoutProperty (snd (getNestedStatePathName ''data'')) \<noteq> ''data''"
  by (simp add: handler_defs)

section \<open>Handlers\<close>

text \<open>
  C4. From the state with list.data = [], list.loading = false, list.errors = [], the
  path "list.data" and no custom reducer function: load gives loading = true; then
  loadSuccess with data [1,2,3] gives data = [1,2,3] and loading = false; then reset
  gives data = [], loading = false, errors = [] again.
\<close>

theorem scenario_list_data:
  "\<exists>hLoad hSuccess hFailure hReset.
     snd (onActionGroup actionGroup ''list.data''
            (JObj [(''list'', JObj [(''data'', JArr []), (''loading'', JBool False),
                                    (''errors'', JArr [])])]) None)
       = Inr [hLoad, hSuccess, hFailure, hReset]
     \<and> reducer hLoad
           (JObj [(''list'', JObj [(''data'', JArr []), (''loading'', JBool False),
                                   (''errors'', JArr [])])])
           [(''type'', JStr t1), (''param'', p)]
         = Inr (JObj [(''list'', JObj [(''data'', JArr []), (''loading'', JBool True),
                                       (''errors'', JArr [])])])
     \<and> reducer hSuccess
           (JObj [(''list'', JObj [(''data'', JArr []), (''loading'', JBool True),
                                   (''errors'', JArr [])])])
           [(''type'', JStr t2), (''data'', JArr [JNum 1, JNum 2, JNum 3])]
         = Inr (JObj [(''list'', JObj [(''data'', JArr [JNum 1, JNum 2, JNum 3]),
                                       (''loading'', JBool False), (''errors'', JArr [])])])
     \<and> reducer hReset
           (JObj [(''list'', JObj [(''data'', JArr [JNum 1, JNum 2, JNum 3]),
                                   (''loading'', JBool False), (''errors'', JArr [])])])
           [(''type'', JStr t3)]
         = Inr (JObj [(''list'', JObj [(''data'', JArr []), (''loading'', JBool False),
                                       (''errors'', JArr [])])])"
  by (simp add: handler_defs)

text \<open>
  C10. The handlers for load and reset do not depend on the dispatched action: on
  the same state, any two actions give the same result (the same state or the same
  exception), so the \<^verbatim>\<open>param\<close> of a load action never reaches the state.
\<close>

theorem payload_independence:
  assumes "snd (onActionGroup g sel st0 rf) = Inr [hLoad, hSuccess, hFailure, hReset]"
  shows "reducer hLoad s a1 = reducer hLoad s a2 \<and> reducer hReset s a1 = reducer hReset s a2"
  using assms by (auto simp: onActionGroup_handlers onLoad_def onReset_def on_def)

theorem payload_independence_witness:
  "reducer (onLoad todo_actions ''list'') idle_list
     [(''type'', JStr ''[Todo] Load todo list''), (''param'', JNum 1)]
   = reducer (onLoad todo_actions ''list'') idle_list
       [(''type'', JStr ''[Todo] Load todo list''), (''param'', JStr ''other'')]
   \<and> reducer (onReset todo_actions ''list'' ''data'' (JArr [])) idle_list
       [(''type'', JStr ''[Todo] Load todo list''), (''param'', JNum 1)]
   = reducer (onReset todo_actions ''list'' ''data'' (JArr [])) idle_list
       [(''type'', JStr ''[Todo] Load todo list''), (''param'', JStr ''other'')]"
  using payload_independence
    [of todo_actions "''list.data''" idle_list None
        "onLoad todo_actions ''list''" "onLoadSuccess todo_actions ''list'' ''data'' None"
        "onLoadFailure todo_actions ''list''" "onReset todo_actions ''list'' ''data'' (JArr [])"
        idle_list
        "[(''type'', JStr ''[Todo] Load todo list''), (''param'', JNum 1)]"
        "[(''type'', JStr ''[Todo] Load todo list''), (''param'', JStr ''other'')]"]
  by (simp add: onActionGroup_handlers getNestedStatePathName_def getNestedState_def
      js_pop_def nullish_def idle_list_def)










text \<open>
  C6, counterexample. With the path "data" and the state
  {data: [], loading: false, errors: []} the diagnostic is printed, and the handler for
  load throws instead of setting loading on the state object.
\<close>

theorem single_segment_root_not_container:
  "fst (onActionGroup todo_actions ''data''
          (JObj [(''data'', JArr []), (''loading'', JBool False), (''errors'', JArr [])]) None)
     = [diagnostic ''data'']
   \<and> reducer (projr (snd (onActionGroup todo_actions ''data''
        (JObj [(''data'', JArr []), (''loading'', JBool False), (''errors'', JArr [])]) None)) ! 0)
        (JObj [(''data'', JArr []), (''loading'', JBool False), (''errors'', JArr [])])
        [(''type'', JStr ''[Todo] Load todo list''), (''param'', JNull)]
     = Inl TypeError"
  by (simp add: handler_defs)

text \<open>
  C6, as amended. For a path without a dot and an initial state that is neither
  undefined nor null, the diagnostic is printed, no error is raised and the four
  handlers are returned. The handlers do not take the state object itself as the
  container: the container is looked up as a property of the state object, and in
  every state that a handler returns (for loadSuccess: the handler built without a
  custom reducer function) the loading and the errors at the top level of the state
  object are what they were before.
\<close>

theorem single_segment_container:
  assumes single: "CHR ''.'' \<notin> set sel"
    and st: "st0 \<noteq> JUndefined" "st0 \<noteq> JNull"
  shows "fst (onActionGroup g sel st0 rf) = [diagnostic sel]
       \<and> (\<exists>hLoad hSuccess hFailure hReset.
            snd (onActionGroup g sel st0 rf) = Inr [hLoad, hSuccess, hFailure, hReset]
            \<and> (\<forall>s a s'. reducer hLoad s a = Inr s' \<or> reducer hFailure s a = Inr s'
                          \<or> reducer hReset s a = Inr s'
                          \<or> rf = None \<and> reducer hSuccess s a = Inr s'
                 \<longrightarrow> get_prop s' ''loading'' = get_prop s ''loading''
                     \<and> get_prop s' ''errors'' = get_prop s ''errors''))"
proof -
  let ?n = "propertyName (snd (getNestedStatePathName sel))"
  from single have k: "pathWithoutProperty (snd (getNestedStatePathName sel)) = []"
    and log: "fst (getNestedStatePathName sel) = [diagnostic sel]"
    by (simp_all add: single_decomposition)
  have console: "fst (onActionGroup g sel st0 rf) = [diagnostic sel]"
    using log by (cases "getNestedStatePathName sel") (simp add: onActionGroup_def)
  from single st obtain i where "getNestedState sel st0 = Inr i"
    by (cases st0) (simp_all add: getNestedState_walk js_split_no_sep)
  then have built: "snd (onActionGroup g sel st0 rf)
      = Inr [onLoad g [], onLoadSuccess g [] ?n rf, onLoadFailure g [], onReset g [] ?n i]"
    by (simp add: onActionGroup_handlers k)
  have keep: "get_prop t' ''loading'' = get_prop t ''loading''
      \<and> get_prop t' ''errors'' = get_prop t ''errors''"
    if "assign [[]] kk x t = Inr t'" for kk x t t'
    using assign_top [OF that, of "''loading''"] assign_top [OF that, of "''errors''"] by simp
  have 1: "get_prop s' ''loading'' = get_prop s ''loading''
      \<and> get_prop s' ''errors'' = get_prop s ''errors''"
    if "reducer (onLoad g []) s a = Inr s'" for s a s'
  proof -
    from that obtain s1 where "assign [[]] ''loading'' (JBool True) s = Inr s1"
      "assign [[]] ''errors'' (JArr []) s1 = Inr s'"
      by (auto simp: onLoad_def on_def produce_def bindE_def getNestedState_draft_walk
          split: sum.splits)
    with keep [of "''loading''" "JBool True" s s1] keep [of "''errors''" "JArr []" s1 s']
    show ?thesis by simp
  qed
  have 2: "get_prop s' ''loading'' = get_prop s ''loading''
      \<and> get_prop s' ''errors'' = get_prop s ''errors''"
    if "reducer (onLoadFailure g []) s a = Inr s'" for s a s'
  proof -
    from that obtain s1 where "assign [[]] ''loading'' (JBool False) s = Inr s1"
      "assign [[]] ''errors'' (action_prop a ''errors'') s1 = Inr s'"
      by (auto simp: onLoadFailure_def on_def produce_def bindE_def getNestedState_draft_walk
          split: sum.splits)
    with keep [of "''loading''" "JBool False" s s1]
      keep [of "''errors''" "action_prop a ''errors''" s1 s']
    show ?thesis by simp
  qed
  have 3: "get_prop s' ''loading'' = get_prop s ''loading''
      \<and> get_prop s' ''errors'' = get_prop s ''errors''"
    if "reducer (onReset g [] ?n i) s a = Inr s'" for s a s'
  proof -
    from that obtain s1 s2 where "assign [[]] ?n i s = Inr s1"
      "assign [[]] ''errors'' (JArr []) s1 = Inr s2"
      "assign [[]] ''loading'' (JBool False) s2 = Inr s'"
      by (auto simp: onReset_def on_def produce_def bindE_def getNestedState_draft_walk
          split: sum.splits)
    with keep [of ?n i s s1] keep [of "''errors''" "JArr []" s1 s2]
      keep [of "''loading''" "JBool False" s2 s']
    show ?thesis by simp
  qed
  have 4: "get_prop s' ''loading'' = get_prop s ''loading''
      \<and> get_prop s' ''errors'' = get_prop s ''errors''"
    if "reducer (onLoadSuccess g [] ?n None) s a = Inr s'" for s a s'
  proof -
    from that obtain s1 s2 where "assign [[]] ?n (action_prop a ''data'') s = Inr s1"
      "assign [[]] ''errors'' (JArr []) s1 = Inr s2"
      "assign [[]] ''loading'' (JBool False) s2 = Inr s'"
      by (auto simp: onLoadSuccess_def on_def produce_def bindE_def getNestedState_d_walk
          scope_after_def split: sum.splits if_splits)
    with keep [of ?n "action_prop a ''data''" s s1] keep [of "''errors''" "JArr []" s1 s2]
      keep [of "''loading''" "JBool False" s2 s']
    show ?thesis by simp
  qed
  from console built 1 2 3 4 show ?thesis by auto
qed

theorem single_segment_container_witness:
  "fst (onActionGroup todo_actions ''details''
          (JObj [(''details'', JObj [(''data'', JNull), (''loading'', JBool False),
                                     (''errors'', JArr [])])]) None)
     = [diagnostic ''details'']
   \<and> (\<exists>hLoad hSuccess hFailure hReset s'.
        snd (onActionGroup todo_actions ''details''
               (JObj [(''details'', JObj [(''data'', JNull), (''loading'', JBool False),
                                          (''errors'', JArr [])])]) None)
          = Inr [hLoad, hSuccess, hFailure, hReset]
        \<and> reducer hLoad
            (JObj [('''', JObj []), (''loading'', JBool False), (''errors'', JArr [JStr ''old''])])
            [(''type'', JStr ''[Todo] Load todo list''), (''param'', JNull)] = Inr s'
        \<and> get_prop s' ''loading'' = Inr (JBool False)
        \<and> get_prop s' ''errors'' = Inr (JArr [JStr ''old'']))"
proof -
  let ?st0 = "JObj [(''details'', JObj [(''data'', JNull), (''loading'', JBool False),
                                        (''errors'', JArr [])])]"
  let ?s = "JObj [('''', JObj []), (''loading'', JBool False), (''errors'', JArr [JStr ''old''])]"
  let ?a = "[(''type'', JStr ''[Todo] Load todo list''), (''param'', JNull)]"
  from single_segment_container [of "''details''" ?st0 todo_actions None]
  obtain hLoad hSuccess hFailure hReset where
    c: "fst (onActionGroup todo_actions ''details'' ?st0 None) = [diagnostic ''details'']"
    and b: "snd (onActionGroup todo_actions ''details'' ?st0 None)
              = Inr [hLoad, hSuccess, hFailure, hReset]"
    and t: "\<forall>s a s'. reducer hLoad s a = Inr s' \<or> reducer hFailure s a = Inr s'
                          \<or> reducer hReset s a = Inr s'
                          \<or> None = (None :: ReducerFunction option) \<and> reducer hSuccess s a = Inr s'
                 \<longrightarrow> get_prop s' ''loading'' = get_prop s ''loading''
                     \<and> get_prop s' ''errors'' = get_prop s ''errors''"
    by auto
  from b have "hLoad = onLoad todo_actions []"
    by (simp add: onActionGroup_handlers getNestedStatePathName_def getNestedState_def
        js_pop_def nullish_def)
  then obtain s' where r: "reducer hLoad ?s ?a = Inr s'"
    by (simp add: onLoad_def on_def produce_def bindE_def getNestedState_draft_def
        getNestedState_def)
  with t have "get_prop s' ''loading'' = get_prop ?s ''loading''
      \<and> get_prop s' ''errors'' = get_prop ?s ''errors''" by blast
  with c b r show ?thesis by auto
qed

section \<open>Identity of the states\<close>

text \<open>
  What the model does where immer makes no draft, and where a custom reducer function
  returns a value of its own. The container at address 1 is an instance of a class:
  the handler for load writes that very object and returns the state it was given.
  On the store of plain objects, the reducer function
  \<^verbatim>\<open>(state, d) => ({...state, count: 1})\<close> makes the loadSuccess handler throw the
  error of immer, as on the values.
\<close>

lemma onLoad_writes_instance:
  "reducer (onLoad_s todo_actions ''list'') (instance_store, HRef 0)
     [(''type'', HStr ''[Todo] Load todo list''), (''param'', HNull)]
   = Inr ([CObj [(''list'', HRef 1)],
           CInst [(''data'', HRef 2), (''loading'', HBool True), (''errors'', HRef 4)],
           CArr [],
           CArr [HStr ''network''],
           CArr []], HRef 0)"
  by (simp add: onLoad_s_def on_def produce_s_def bindE_def alloc_def getNestedState_draft_s_def
      getNestedState_s_def instance_store_def cell_set_raw_def)

lemma merge_count_s_refused:
  "reducer (onLoadSuccess_s todo_actions ''list'' ''data'' (Some merge_count_s))
     (example_store, HRef 0)
     [(''type'', HStr ''[API] Load todo list Success''), (''data'', HNum 5)]
   = Inl ImmerError"
  by (simp add: onLoadSuccess_s_def on_def produce_s_def bindE_def alloc_def assign_m_def
      getNestedState_draft_s_def getNestedState_s_def example_store_def merge_count_s_def
      action_prop_s_def same_value_def write_cell_def)

text \<open>
  C1, counterexample. First, a state of plain objects: the state is the object at
  address 0; its container, at address 1, has loading = false and, as errors, the
  array at address 3. A loadFailure action carrying that same array (the same action
  dispatched a second time) changes nothing, and the handler returns the state it was
  given: the same root object, in the same store. Second, a state whose container, at
  address 1, is an instance of a class: the handler for load returns the state it was
  given, the same root object, and the container has been written in place: the
  object at address 1 now has loading = true.
\<close>

theorem same_state_returned_or_written:
  "reducer
     (projr (snd (onActionGroup_s todo_actions ''list.data''
        ([CObj [(''list'', HRef 1)],
          CObj [(''data'', HRef 2), (''loading'', HBool False), (''errors'', HRef 3)],
          CArr [],
          CArr [HStr ''network'']], HRef 0) None)) ! 2)
     ([CObj [(''list'', HRef 1)],
       CObj [(''data'', HRef 2), (''loading'', HBool False), (''errors'', HRef 3)],
       CArr [],
       CArr [HStr ''network'']], HRef 0)
     [(''type'', HStr ''[API] Load todo list Failure''), (''errors'', HRef 3)]
   = Inr ([CObj [(''list'', HRef 1)],
           CObj [(''data'', HRef 2), (''loading'', HBool False), (''errors'', HRef 3)],
           CArr [],
           CArr [HStr ''network'']], HRef 0)
   \<and> reducer
     (projr (snd (onActionGroup_s todo_actions ''list.data''
        ([CObj [(''list'', HRef 1)],
          CInst [(''data'', HRef 2), (''loading'', HBool False), (''errors'', HRef 3)],
          CArr [],
          CArr [HStr ''network'']], HRef 0) None)) ! 0)
     ([CObj [(''list'', HRef 1)],
       CInst [(''data'', HRef 2), (''loading'', HBool False), (''errors'', HRef 3)],
       CArr [],
       CArr [HStr ''network'']], HRef 0)
     [(''type'', HStr ''[Todo] Load todo list''), (''param'', HNull)]
   = Inr ([CObj [(''list'', HRef 1)],
           CInst [(''data'', HRef 2), (''loading'', HBool True), (''errors'', HRef 4)],
           CArr [],
           CArr [HStr ''network''],
           CArr []], HRef 0)"
  by (simp add: onActionGroup_s_def getNestedStatePathName_def js_pop_def nullish_def
      onLoadFailure_s_def onLoad_s_def on_def produce_s_def bindE_def alloc_def
      getNestedState_draft_s_def getNestedState_s_def same_value_def write_cell_def
      action_prop_s_def cell_set_raw_def)

text \<open>
  C1, as amended. Take a closed store and a state in which no object from the root
  down to the addressed container is an instance of a class (they are the plain
  objects and arrays that immer drafts). The handlers for load, loadFailure and reset,
  whatever custom reducer function the handlers were built with, and the handler for
  loadSuccess built without one, write no object that exists before the call, and the
  state passed in reads afterwards, along every path, as it did before. When the
  handler for load, loadSuccess or reset returns, the returned state has a new object
  at every level from the root down to the addressed container. The handler for
  loadFailure does the same, unless the container already has loading = false and
  errors identical to the errors of the action: then nothing changes and it returns
  the state it was given.
\<close>

theorem handlers_copy_on_write:
  assumes build: "snd (onActionGroup_s g sel st0 rf) = Inr [hLoad, hSuccess, hFailure, hReset]"
    and ok: "store_ok h"
    and plain: "plain_path h
                  (js_split CHR ''.'' (pathWithoutProperty (snd (getNestedStatePathName sel)))) s"
  shows "(reducer hLoad (h, s) a = Inr (h', s')
            \<or> rf = None \<and> reducer hSuccess (h, s) a = Inr (h', s')
            \<or> reducer hReset (h, s) a = Inr (h', s')
          \<longrightarrow> unchanged h h' \<and> (\<forall>q. walk_s h' q s = walk_s h q s)
              \<and> new_levels h s h' s'
                  (js_split CHR ''.'' (pathWithoutProperty (snd (getNestedStatePathName sel)))))
       \<and> (reducer hFailure (h, s) a = Inr (h', s')
          \<longrightarrow> unchanged h h' \<and> (\<forall>q. walk_s h' q s = walk_s h q s)
              \<and> (if already_failed (pathWithoutProperty (snd (getNestedStatePathName sel))) h s a
                 then h' = h \<and> s' = s
                 else new_levels h s h' s'
                        (js_split CHR ''.''
                           (pathWithoutProperty (snd (getNestedStatePathName sel))))))"
proof -
  let ?p = "pathWithoutProperty (snd (getNestedStatePathName sel))"
  let ?n = "propertyName (snd (getNestedStatePathName sel))"
  from build obtain i where hs: "hLoad = onLoad_s g ?p" "hSuccess = onLoadSuccess_s g ?p ?n rf"
    "hFailure = onLoadFailure_s g ?p" "hReset = onReset_s g ?p ?n i"
    by (auto simp: onActionGroup_s_handlers)
  have fresh: "unchanged h h' \<and> (\<forall>q. walk_s h' q s = walk_s h q s)
      \<and> new_levels h s h' s' (js_split CHR ''.'' ?p)"
    if "olds (length h) h (js_split CHR ''.'' ?p) s
        \<and> news (length h) (length h') h' (js_split CHR ''.'' ?p) s'
        \<and> length h \<le> length h' \<and> (\<forall>i<length h. h' ! i = h ! i)"
  proof -
    from that have u: "unchanged h h'" by (simp add: unchanged_def)
    from that olds_reads [OF ok u] new_levelsI u show ?thesis by blast
  qed
  have 1: "unchanged h h' \<and> (\<forall>q. walk_s h' q s = walk_s h q s)
      \<and> new_levels h s h' s' (js_split CHR ''.'' ?p)"
    if "reducer hLoad (h, s) a = Inr (h', s')"
    using onLoad_s_result [OF ok plain that [unfolded hs]] by (rule fresh)
  have 2: "unchanged h h' \<and> (\<forall>q. walk_s h' q s = walk_s h q s)
      \<and> new_levels h s h' s' (js_split CHR ''.'' ?p)"
    if "rf = None" "reducer hSuccess (h, s) a = Inr (h', s')"
    using onLoadSuccess_s_result [OF ok plain that(2) [unfolded hs that(1)]] by (rule fresh)
  have 3: "unchanged h h' \<and> (\<forall>q. walk_s h' q s = walk_s h q s)
      \<and> new_levels h s h' s' (js_split CHR ''.'' ?p)"
    if "reducer hReset (h, s) a = Inr (h', s')"
    using onReset_s_result [OF ok plain that [unfolded hs]] by (rule fresh)
  have 4: "unchanged h h' \<and> (\<forall>q. walk_s h' q s = walk_s h q s)
      \<and> (if already_failed ?p h s a then h' = h \<and> s' = s
         else new_levels h s h' s' (js_split CHR ''.'' ?p))"
    if r: "reducer hFailure (h, s) a = Inr (h', s')"
  proof (cases "already_failed ?p h s a")
    case True
    from onLoadFailure_s_same [OF True plain, of g] r hs have "h' = h" "s' = s" by simp_all
    with True show ?thesis by (simp add: unchanged_def)
  next
    case False
    then have n: "\<not> (\<exists>c. walk_s h (js_split CHR ''.'' ?p) s = Inr (HRef c) \<and> c < length h
        \<and> same_value (h ! c) ''loading'' (HBool False)
        \<and> same_value (h ! c) ''errors'' (action_prop_s a ''errors''))"
      by (auto simp: already_failed_def getNestedState_s_walk)
    from onLoadFailure_s_result [OF plain r [unfolded hs]] have
      o: "olds (length h) h (js_split CHR ''.'' ?p) s" and
      u: "unchanged h h'" and
      d: "news (length h) (length h') h' (js_split CHR ''.'' ?p) s'
          \<or> (h' = h \<and> s' = s
             \<and> (\<exists>c. walk_s h (js_split CHR ''.'' ?p) s = Inr (HRef c) \<and> c < length h
                  \<and> same_value (h ! c) ''loading'' (HBool False)
                  \<and> same_value (h ! c) ''errors'' (action_prop_s a ''errors'')))"
      by (simp_all add: unchanged_def)
    from d n have "news (length h) (length h') h' (js_split CHR ''.'' ?p) s'" by blast
    with o olds_reads [OF ok u o] new_levelsI u False show ?thesis by auto
  qed
  from 1 2 3 4 show ?thesis by blast
qed

theorem handlers_copy_on_write_witness:
  "unchanged example_store
     [CObj [(''list'', HRef 1)],
      CObj [(''data'', HRef 2), (''loading'', HBool False), (''errors'', HRef 3)],
      CArr [],
      CArr [HStr ''network''],
      CObj [(''data'', HRef 2), (''loading'', HBool True), (''errors'', HRef 6)],
      CObj [(''list'', HRef 4)],
      CArr []]
   \<and> new_levels example_store (HRef 0)
     [CObj [(''list'', HRef 1)],
      CObj [(''data'', HRef 2), (''loading'', HBool False), (''errors'', HRef 3)],
      CArr [],
      CArr [HStr ''network''],
      CObj [(''data'', HRef 2), (''loading'', HBool True), (''errors'', HRef 6)],
      CObj [(''list'', HRef 4)],
      CArr []]
     (HRef 5) [''list'']"
proof -
  have ok: "store_ok example_store"
    by (simp add: store_ok_def example_store_def)
  have run: "reducer (onLoad_s todo_actions ''list'') (example_store, HRef 0)
               [(''type'', HStr ''[Todo] Load todo list''), (''param'', HNull)]
             = Inr ([CObj [(''list'', HRef 1)],
                     CObj [(''data'', HRef 2), (''loading'', HBool False), (''errors'', HRef 3)],
                     CArr [],
                     CArr [HStr ''network''],
                     CObj [(''data'', HRef 2), (''loading'', HBool True), (''errors'', HRef 6)],
                     CObj [(''list'', HRef 4)],
                     CArr []], HRef 5)"
    by (simp add: onLoad_s_def on_def produce_s_def bindE_def alloc_def getNestedState_draft_s_def
        getNestedState_s_def example_store_def same_value_def write_cell_def)
  have build: "snd (onActionGroup_s todo_actions ''list.data'' (example_store, HRef 0)
                      (Some merge_count_s))
      = Inr [onLoad_s todo_actions ''list'',
             onLoadSuccess_s todo_actions ''list'' ''data'' (Some merge_count_s),
             onLoadFailure_s todo_actions ''list'',
             onReset_s todo_actions ''list'' ''data'' (HRef 2)]"
    by (simp add: onActionGroup_s_handlers getNestedStatePathName_def getNestedState_s_def
        js_pop_def nullish_def example_store_def)
  have names: "js_split CHR ''.'' (pathWithoutProperty (snd (getNestedStatePathName ''list.data'')))
      = [''list'']"
    by (simp add: getNestedStatePathName_def js_pop_def nullish_def)
  have plain: "plain_path example_store
      (js_split CHR ''.'' (pathWithoutProperty (snd (getNestedStatePathName ''list.data''))))
      (HRef 0)"
    by (simp add: names example_store_def)
  from handlers_copy_on_write [OF build ok plain, THEN conjunct1, THEN mp, OF disjI1, OF run]
  show ?thesis by (simp only: names)
qed

end
